theory Spec2Isabelle
  imports Main "HOL-Library.Word"
begin

unbundle bit_operations_syntax

section \<open>The data model of dynamicjson.go\<close>

text \<open>
  A \<^verbatim>\<open>*DynamicJSON\<close> is a pointer: either the nil pointer or the address of a
  container in the store. Containers are mutated in place and may be shared, so the
  store is explicit.
\<close>

type_synonym addr = nat

datatype ptr = NilPtr | Ptr addr

text \<open>A \<^verbatim>\<open>float64\<close> is its 64-bit pattern; a \<^verbatim>\<open>time.Time\<close> is an opaque instant.\<close>

type_synonym float64 = "64 word"
type_synonym Time = int

text \<open>
  The dynamic types an \<^verbatim>\<open>interface{}\<close> slot holds in a document: untyped nil, bool,
  \<^verbatim>\<open>json.Number\<close> (verbatim text), float64, int, int64, string, time.Time, the
  tombstone sentinel \<^verbatim>\<open>gDeletedEntry\<close> (strmap.go), a \<^verbatim>\<open>*DynamicJSON\<close> (which may
  be a typed nil pointer), and a \<^verbatim>\<open>DynamicJSON\<close> struct value: \<^verbatim>\<open>convertToDJ\<close>
  returns a value of kind struct unchanged, so \<^verbatim>\<open>d.Set("x", *m)\<close> stores a copy of
  the struct. \<open>VStruct\<close> carries the four fields of that copy (\<^verbatim>\<open>keys\<close>,
  \<^verbatim>\<open>ordKeys\<close>, \<^verbatim>\<open>iterCounter\<close>, \<^verbatim>\<open>values\<close>) as they were when the copy was
  made. \<open>VOther\<close> stands for a value of any other dynamic type (int32, uint, float32,
  a native array, ...), which no type test of the package matches. Go's int is 64 bits
  wide; no operation below does arithmetic on a stored int, so it is an \<open>int\<close>.
\<close>

datatype val =
    VNil
  | VBool bool
  | VNumber string
  | VFloat float64
  | VInt int
  | VInt64 int
  | VString string
  | VTime Time
  | VDeleted
  | VDoc ptr
  | VStruct "(string \<rightharpoonup> nat) option" "string list" int "val list"
  | VOther nat

text \<open>
  The struct. \<open>keys = None\<close> is the nil Go map, which marks an array. The field
  \<^verbatim>\<open>values\<close> is called \<open>vals\<close>.
\<close>

record DynamicJSON =
  keys :: "(string \<rightharpoonup> nat) option"
  ordKeys :: "string list"
  iterCounter :: int
  vals :: "val list"

text \<open>The store: the allocated containers and the next unused address.\<close>

record heap =
  cells :: "addr \<Rightarrow> DynamicJSON"
  fresh :: addr

text \<open>
  A run-time panic (or running out of fuel where the Go code may recurse forever) is the
  left summand of a result; a Go \<^verbatim>\<open>error\<close> return value is an ordinary result.
\<close>

datatype fault = NilDeref | IndexOutOfRange | OutOfFuel

type_synonym 'a res = "fault + 'a"

datatype error = FrozenError | InvalidOperation | InvalidIndex

text \<open>
  Library functions the repository calls but does not define: the scalar encoder
  \<^verbatim>\<open>njson.Append(buf, v, njson.EscapeHTML)\<close>, \<^verbatim>\<open>strconv.ParseFloat(s, 64)\<close>,
  \<^verbatim>\<open>int(math.Round(f))\<close> and \<^verbatim>\<open>Time.Format(time.RFC3339Nano)\<close>. They are
  parameters of the model.
\<close>

record ext =
  Append_njson :: "val \<Rightarrow> string"
  ParseFloat :: "string \<Rightarrow> float64 option"
  RoundToInt :: "float64 \<Rightarrow> int"
  FormatTime :: "Time \<Rightarrow> string"

section \<open>Strings and numbers\<close>

text \<open>\<^verbatim>\<open>strings.IndexByte\<close>: the index of the first occurrence, or -1.\<close>

fun IndexByte :: "string \<Rightarrow> char \<Rightarrow> int" where
  "IndexByte [] c = -1"
| "IndexByte (x # xs) c =
     (if x = c then 0 else (let r = IndexByte xs c in if r < 0 then -1 else r + 1))"

text \<open>\<^verbatim>\<open>strings.TrimSuffix\<close>.\<close>

definition TrimSuffix :: "string \<Rightarrow> string \<Rightarrow> string" where
  "TrimSuffix s suffix =
     (if length suffix \<le> length s \<and> drop (length s - length suffix) s = suffix
      then take (length s - length suffix) s else s)"

text \<open>Decimal rendering of an int: \<^verbatim>\<open>strconv.Itoa\<close>, \<^verbatim>\<open>fmt.Sprint\<close> of an int.\<close>

fun digits :: "nat \<Rightarrow> string" where
  "digits n =
     (if n < 10 then [char_of (48 + n)] else digits (n div 10) @ [char_of (48 + n mod 10)])"

declare digits.simps [simp del]

definition Itoa :: "int \<Rightarrow> string" where
  "Itoa i = (if i < 0 then CHR ''-'' # digits (nat (- i)) else digits (nat i))"

text \<open>
  \<^verbatim>\<open>strconv.ParseInt(s, 10, 64)\<close> and \<^verbatim>\<open>strconv.Atoi\<close> on a 64-bit platform: an
  optional sign, at least one decimal digit, and a value in the int64 range.
\<close>

fun parse_digits :: "string \<Rightarrow> nat \<Rightarrow> nat option" where
  "parse_digits [] n = Some n"
| "parse_digits (ch # s) n =
     (if 48 \<le> (of_char ch :: nat) \<and> (of_char ch :: nat) \<le> 57
      then parse_digits s (n * 10 + (of_char ch - 48)) else None)"

definition ParseInt :: "string \<Rightarrow> int option" where
  "ParseInt s =
     (case s of
        [] \<Rightarrow> None
      | c # r \<Rightarrow>
          (let neg = (c = CHR ''-'');
               body = (if c = CHR ''+'' \<or> c = CHR ''-'' then r else s)
           in if body = [] then None
              else (case parse_digits body 0 of
                      None \<Rightarrow> None
                    | Some n \<Rightarrow>
                        if neg then (if n \<le> 2 ^ 63 then Some (- int n) else None)
                        else (if n < 2 ^ 63 then Some (int n) else None))))"

text \<open>
  \<^verbatim>\<open>key2Index\<close>: one to nine bytes, all decimal digits. \<^verbatim>\<open>ch -= '0'\<close> is byte
  arithmetic and wraps.
\<close>

fun key2Index_loop :: "string \<Rightarrow> int \<Rightarrow> int" where
  "key2Index_loop [] n = n"
| "key2Index_loop (c # s) n =
     (let ch = (of_char c + 256 - 48) mod 256 :: nat
      in if ch > 9 then -1 else key2Index_loop s (n * 10 + int ch))"

definition key2Index :: "string \<Rightarrow> int" where
  "key2Index s = (if 0 < length s \<and> length s < 10 then key2Index_loop s 0 else -1)"

section \<open>Constructors and the single-level primitives\<close>

definition alloc :: "heap \<Rightarrow> DynamicJSON \<Rightarrow> ptr \<times> heap" where
  "alloc h d = (Ptr (fresh h), h\<lparr>cells := (cells h)(fresh h := d), fresh := Suc (fresh h)\<rparr>)"

definition NewMap :: "heap \<Rightarrow> ptr \<times> heap" where
  "NewMap h = alloc h \<lparr>keys = Some Map.empty, ordKeys = [], iterCounter = 0, vals = []\<rparr>"

definition NewArray :: "heap \<Rightarrow> ptr \<times> heap" where
  "NewArray h = alloc h \<lparr>keys = None, ordKeys = [], iterCounter = 0, vals = []\<rparr>"

definition store :: "heap \<Rightarrow> addr \<Rightarrow> DynamicJSON \<Rightarrow> heap" where
  "store h a d = h\<lparr>cells := (cells h)(a := d)\<rparr>"

definition IsArray :: "heap \<Rightarrow> ptr \<Rightarrow> bool" where
  "IsArray h self = (case self of NilPtr \<Rightarrow> False | Ptr a \<Rightarrow> keys (cells h a) = None)"

text \<open>\<^verbatim>\<open>IsFrozen\<close> dereferences its receiver without a nil check.\<close>

definition IsFrozen :: "heap \<Rightarrow> ptr \<Rightarrow> bool res" where
  "IsFrozen h self = (case self of NilPtr \<Rightarrow> Inl NilDeref | Ptr a \<Rightarrow> Inr (iterCounter (cells h a) < 0))"

text \<open>
  \<^verbatim>\<open>append(self.values, make([]interface{}, i-len(self.values)+1)...)\<close> followed by
  \<^verbatim>\<open>self.values[i] = value\<close>.
\<close>

definition extend_store :: "val list \<Rightarrow> nat \<Rightarrow> val \<Rightarrow> val list" where
  "extend_store vs i v =
     (if i \<ge> length vs then vs @ replicate (i - length vs + 1) VNil else vs)[i := v]"

text \<open>
  \<^verbatim>\<open>set\<close> (called \<open>set_dj\<close> here). The slot index of a new key is
  \<^verbatim>\<open>uint32(len(self.values))\<close>.
\<close>

definition set_dj :: "heap \<Rightarrow> ptr \<Rightarrow> string \<Rightarrow> val \<Rightarrow> (error option \<times> heap) res" where
  "set_dj h self key v =
     (case self of
        NilPtr \<Rightarrow> Inl NilDeref
      | Ptr a \<Rightarrow>
          (let d = cells h a in
           if iterCounter d < 0 then Inr (Some FrozenError, h)
           else (case keys d of
                   None \<Rightarrow>
                     (let i = key2Index key in
                      if i < 0 then Inr (Some InvalidOperation, h)
                      else Inr (None, store h a (d\<lparr>vals := extend_store (vals d) (nat i) v\<rparr>)))
                 | Some m \<Rightarrow>
                     (case m key of
                        Some inx \<Rightarrow>
                          if inx < length (vals d) \<and> inx < length (ordKeys d)
                          then Inr (None, store h a (d\<lparr>vals := (vals d)[inx := v],
                                                         ordKeys := (ordKeys d)[inx := key]\<rparr>))
                          else Inl IndexOutOfRange
                      | None \<Rightarrow>
                          (let inx = length (vals d) mod 2 ^ 32
                           in Inr (None, store h a (d\<lparr>keys := Some (m(key \<mapsto> inx)),
                                                          vals := vals d @ [v],
                                                          ordKeys := ordKeys d @ [key]\<rparr>)))))))"

definition SetI :: "heap \<Rightarrow> ptr \<Rightarrow> int \<Rightarrow> val \<Rightarrow> (error option \<times> heap) res" where
  "SetI h self i v =
     (case self of
        NilPtr \<Rightarrow> Inl NilDeref
      | Ptr a \<Rightarrow>
          (let d = cells h a in
           if iterCounter d < 0 then Inr (Some FrozenError, h)
           else if IsArray h self then
             (if i < 0 then Inr (Some InvalidIndex, h)
              else Inr (None, store h a (d\<lparr>vals := extend_store (vals d) (nat i) v\<rparr>)))
           else set_dj h self (Itoa i) v))"

definition get :: "heap \<Rightarrow> ptr \<Rightarrow> string \<Rightarrow> (val \<times> bool) res" where
  "get h self key =
     (case self of
        NilPtr \<Rightarrow> Inr (VNil, False)
      | Ptr a \<Rightarrow>
          (let d = cells h a in
           case keys d of
             None \<Rightarrow>
               (let i = key2Index key in
                if i < 0 then Inr (VNil, False)
                else if nat i < length (vals d) then Inr (vals d ! nat i, True)
                else Inr (VNil, False))
           | Some m \<Rightarrow>
               (case m key of
                  None \<Rightarrow> Inr (VNil, False)
                | Some inx \<Rightarrow>
                    if inx < length (vals d) then Inr (vals d ! inx, True)
                    else Inl IndexOutOfRange)))"

text \<open>\<^verbatim>\<open>Append\<close> has no return value, and does nothing on a map.\<close>

definition Append :: "heap \<Rightarrow> ptr \<Rightarrow> val \<Rightarrow> heap" where
  "Append h self v =
     (case self of
        NilPtr \<Rightarrow> h
      | Ptr a \<Rightarrow>
          if IsArray h self then store h a ((cells h a)\<lparr>vals := vals (cells h a) @ [v]\<rparr>)
          else h)"

definition Len :: "heap \<Rightarrow> ptr \<Rightarrow> nat" where
  "Len h self =
     (case self of
        NilPtr \<Rightarrow> 0
      | Ptr a \<Rightarrow>
          (case keys (cells h a) of
             None \<Rightarrow> length (vals (cells h a))
           | Some m \<Rightarrow> card (dom m)))"

text \<open>
  \<^verbatim>\<open>Keys\<close>. The map loop reads \<^verbatim>\<open>self.ordKeys[i]\<close> for every slot that is not a
  tombstone; \<open>i\<close> is the index of the head of the remaining slots.
\<close>

fun Keys_loop :: "string list \<Rightarrow> val list \<Rightarrow> nat \<Rightarrow> string list res" where
  "Keys_loop oks [] i = Inr []"
| "Keys_loop oks (x # xs) i =
     (if x = VDeleted then Keys_loop oks xs (i + 1)
      else if i < length oks then
        (case Keys_loop oks xs (i + 1) of Inl f \<Rightarrow> Inl f | Inr r \<Rightarrow> Inr (oks ! i # r))
      else Inl IndexOutOfRange)"

definition Keys :: "heap \<Rightarrow> ptr \<Rightarrow> string list res" where
  "Keys h self =
     (case self of
        NilPtr \<Rightarrow> Inr []
      | Ptr a \<Rightarrow>
          (let d = cells h a in
           if IsArray h self then Inr (map (\<lambda>i. Itoa (int i)) [0..<length (vals d)])
           else Keys_loop (ordKeys d) (vals d) 0))"

section \<open>Compaction\<close>

text \<open>
  The loop of \<^verbatim>\<open>packing\<close>: \<open>i\<close> runs over the old slots, \<open>j\<close> (a uint32) counts
  the slots written. Writing past the end of the new slices panics.
\<close>

function packing_loop ::
  "DynamicJSON \<Rightarrow> nat \<Rightarrow> val list \<Rightarrow> string list \<Rightarrow> (string \<rightharpoonup> nat) \<Rightarrow> nat
     \<Rightarrow> (val list \<times> string list \<times> (string \<rightharpoonup> nat)) res" where
  "packing_loop d i values1 ordKeys1 ks j =
     (if i < length (vals d) then
        (if vals d ! i = VDeleted then packing_loop d (i + 1) values1 ordKeys1 ks j
         else if length values1 \<le> j then Inl IndexOutOfRange
         else if length (ordKeys d) \<le> i \<or> length ordKeys1 \<le> j then Inl IndexOutOfRange
         else packing_loop d (i + 1) (values1[j := vals d ! i]) (ordKeys1[j := ordKeys d ! i])
                (ks(ordKeys d ! i \<mapsto> j)) ((j + 1) mod 2 ^ 32))
      else Inr (values1, ordKeys1, ks))"
  by pat_completeness auto
termination
  by (relation "measure (\<lambda>(d, i, values1, ordKeys1, ks, j). length (vals d) - i)") auto

declare packing_loop.simps [simp del]

definition packing :: "heap \<Rightarrow> ptr \<Rightarrow> heap res" where
  "packing h self =
     (case self of
        NilPtr \<Rightarrow> Inr h
      | Ptr a \<Rightarrow>
          (let d = cells h a in
           if iterCounter d \<noteq> 0 then Inr h
           else (case keys d of
                   None \<Rightarrow> Inr h
                 | Some m \<Rightarrow>
                     if length (vals d) \<ge> 128 \<and> card (dom m) * 3 < length (vals d) then
                       (case packing_loop d 0 (replicate (card (dom m)) VNil)
                               (replicate (card (dom m)) []) m 0 of
                          Inl f \<Rightarrow> Inl f
                        | Inr (values1, ordKeys1, ks) \<Rightarrow>
                            Inr (store h a (d\<lparr>keys := Some ks, vals := values1,
                                               ordKeys := ordKeys1\<rparr>)))
                     else Inr h)))"

section \<open>Paths\<close>

definition createLevelFromNextPath :: "heap \<Rightarrow> string \<Rightarrow> ptr \<times> heap" where
  "createLevelFromNextPath h path =
     (let i = IndexByte path CHR ''/'';
          name = (if i \<ge> 0 then take (nat i) path else path)
      in if key2Index name \<ge> 0 then NewArray h else NewMap h)"

lemma IndexByte_bounds: "- 1 \<le> IndexByte s c \<and> IndexByte s c < int (length s)"
  by (induction s) (auto simp: Let_def)

text \<open>
  The loop of \<^verbatim>\<open>doOp\<close>. The results of \<^verbatim>\<open>level.set\<close> are discarded, as in the
  source; a panic is not.
\<close>

function doOp_loop ::
  "heap \<Rightarrow> ptr \<Rightarrow> string \<Rightarrow> bool \<Rightarrow> bool \<Rightarrow> val \<Rightarrow> ((val \<times> bool) \<times> heap) res" where
  "doOp_loop h level path autoCreate setValue v =
     (if length path = 0 then Inr ((VDoc level, True), h)
      else
        (let i = IndexByte path CHR ''/'' in
         if i = 0 then doOp_loop h level (drop 1 path) autoCreate setValue v
         else if i > 0 then
           (let name = take (nat i) path; path1 = drop (nat i + 1) path in
            case get h level name of
              Inl f \<Rightarrow> Inl f
            | Inr (next, ok) \<Rightarrow>
                (case (if ok then next else VNil) of
                   VDoc nextMap \<Rightarrow> doOp_loop h nextMap path1 autoCreate setValue v
                 | _ \<Rightarrow>
                     if autoCreate then
                       (case createLevelFromNextPath h path1 of
                          (nextMap, h1) \<Rightarrow>
                            (case set_dj h1 level name (VDoc nextMap) of
                               Inl f \<Rightarrow> Inl f
                             | Inr (_, h2) \<Rightarrow> doOp_loop h2 nextMap path1 autoCreate setValue v))
                     else Inr ((VNil, False), h)))
         else
           (case (if setValue then set_dj h level path v else Inr (None, h)) of
              Inl f \<Rightarrow> Inl f
            | Inr (_, h1) \<Rightarrow>
                (case get h1 level path of
                   Inl f \<Rightarrow> Inl f
                 | Inr (x, ok) \<Rightarrow> if ok then Inr ((x, True), h1) else Inr ((VNil, False), h1)))))"
  by pat_completeness auto
termination
  by (relation "measure (\<lambda>(h, level, path, autoCreate, setValue, v). length path)") auto

declare doOp_loop.simps [simp del]

definition doOp ::
  "heap \<Rightarrow> ptr \<Rightarrow> string \<Rightarrow> bool \<Rightarrow> bool \<Rightarrow> val \<Rightarrow> ((val \<times> bool) \<times> heap) res" where
  "doOp h self path autoCreate setValue v =
     (if setValue then
        (case self of
           NilPtr \<Rightarrow> Inl NilDeref
         | Ptr a \<Rightarrow>
             if iterCounter (cells h a) < 0 then Inr ((VNil, False), h)
             else doOp_loop h self path autoCreate setValue v)
      else doOp_loop h self path autoCreate setValue v)"

text \<open>
  \<^verbatim>\<open>convertToDJ\<close> on the dynamic types of \<open>val\<close>: nil stays nil, a
  \<^verbatim>\<open>*DynamicJSON\<close> is kept as it is, the tombstone sentinel is a pointer
  (\<^verbatim>\<open>reflect.Pointer\<close>) and becomes nil, and every other value, a struct value
  among them, is returned unchanged.
\<close>

definition convertToDJ :: "val \<Rightarrow> val" where
  "convertToDJ v = (case v of VNil \<Rightarrow> VNil | VDoc p \<Rightarrow> VDoc p | VDeleted \<Rightarrow> VNil | _ \<Rightarrow> v)"

text \<open>\<^verbatim>\<open>Set\<close> has no return value.\<close>

definition Set :: "heap \<Rightarrow> ptr \<Rightarrow> string \<Rightarrow> val \<Rightarrow> heap res" where
  "Set h self path v =
     (case doOp h self path True True (convertToDJ v) of Inl f \<Rightarrow> Inl f | Inr (_, h1) \<Rightarrow> Inr h1)"

definition Nested :: "heap \<Rightarrow> ptr \<Rightarrow> string \<Rightarrow> (ptr \<times> heap) res" where
  "Nested h self path =
     (case self of
        NilPtr \<Rightarrow> Inr (NilPtr, h)
      | Ptr a \<Rightarrow>
          (case doOp h self path False False VNil of
             Inl f \<Rightarrow> Inl f
           | Inr ((x, ok), h1) \<Rightarrow>
               if \<not> ok then Inr (NilPtr, h1)
               else (case x of VDoc p \<Rightarrow> Inr (p, h1) | _ \<Rightarrow> Inr (NilPtr, h1))))"

definition Get :: "heap \<Rightarrow> ptr \<Rightarrow> string \<Rightarrow> (val \<times> heap) res" where
  "Get h self path =
     (case doOp h self path False False VNil of
        Inl f \<Rightarrow> Inl f
      | Inr ((x, ok), h1) \<Rightarrow> if ok then Inr (x, h1) else Inr (VNil, h1))"

definition Fetch :: "heap \<Rightarrow> ptr \<Rightarrow> string \<Rightarrow> ((val \<times> bool) \<times> heap) res" where
  "Fetch h self path =
     (case doOp h self path False False VNil of
        Inl f \<Rightarrow> Inl f
      | Inr ((x, ok), h1) \<Rightarrow> if ok then Inr ((x, True), h1) else Inr ((VNil, False), h1))"

section \<open>Deletion and membership\<close>

text \<open>
  \<^verbatim>\<open>Delete\<close>. With a slash in the path it descends through \<^verbatim>\<open>Nested\<close> and drops
  the error of the inner call. An array removes and shifts; a map leaves a tombstone,
  removes the key from the index and calls \<^verbatim>\<open>packing\<close>.
\<close>

function Delete :: "heap \<Rightarrow> ptr \<Rightarrow> string \<Rightarrow> (error option \<times> heap) res" where
  "Delete h self path =
     (case self of
        NilPtr \<Rightarrow> Inr (None, h)
      | Ptr a \<Rightarrow>
          (let d = cells h a; i = IndexByte path CHR ''/'' in
           if iterCounter d < 0 then Inr (Some FrozenError, h)
           else if i \<ge> 0 then
             (case Nested h self (take (nat i) path) of
                Inl f \<Rightarrow> Inl f
              | Inr (p, h1) \<Rightarrow>
                  (case Delete h1 p (drop (nat i + 1) path) of
                     Inl f \<Rightarrow> Inl f
                   | Inr (_, h2) \<Rightarrow> Inr (None, h2)))
           else
             (case keys d of
                None \<Rightarrow>
                  (let k = key2Index path in
                   if k < 0 then Inr (None, h)
                   else if nat k < length (vals d) then
                     Inr (None, store h a (d\<lparr>vals := take (nat k) (vals d) @ drop (nat k + 1) (vals d)\<rparr>))
                   else Inr (None, h))
              | Some m \<Rightarrow>
                  (case m path of
                     None \<Rightarrow> Inr (None, h)
                   | Some inx \<Rightarrow>
                       if inx < length (vals d) then
                         (case packing (store h a (d\<lparr>vals := (vals d)[inx := VDeleted],
                                                       keys := Some (m(path := None))\<rparr>)) self of
                            Inl f \<Rightarrow> Inl f
                          | Inr h1 \<Rightarrow> Inr (None, h1))
                       else Inl IndexOutOfRange))))"
  by pat_completeness auto
termination
proof (relation "measure (\<lambda>(h, self, path). length path)", goal_cases)
  case 1
  show ?case by simp
next
  case (2 h self path a d i r p)
  then show ?case using IndexByte_bounds [of path "CHR ''/''"] by auto
qed

declare Delete.simps [simp del]

function Has :: "heap \<Rightarrow> ptr \<Rightarrow> string \<Rightarrow> bool res" where
  "Has h self path =
     (case self of
        NilPtr \<Rightarrow> Inr False
      | Ptr a \<Rightarrow>
          (let d = cells h a; i = IndexByte path CHR ''/'' in
           if i \<ge> 0 then
             (case Nested h self (take (nat i) path) of
                Inl f \<Rightarrow> Inl f
              | Inr (p, h1) \<Rightarrow> Has h1 p (drop (nat i + 1) path))
           else
             (case keys d of
                None \<Rightarrow>
                  (let k = key2Index path in
                   if k < 0 then Inr False else Inr (nat k < length (vals d)))
              | Some m \<Rightarrow> Inr (m path \<noteq> None))))"
  by pat_completeness auto
termination
proof (relation "measure (\<lambda>(h, self, path). length path)", goal_cases)
  case 1
  show ?case by simp
next
  case (2 h self path a d i r p)
  then show ?case using IndexByte_bounds [of path "CHR ''/''"] by auto
qed

declare Has.simps [simp del]

section \<open>Freeze\<close>

text \<open>
  \<^verbatim>\<open>Freeze\<close> recurses through the store, and does not return on a cyclic document:
  the recursion carries fuel, one unit for every call and every loop step. The array
  branch visits every slot; the map branch skips tombstones.
\<close>

fun Freeze :: "nat \<Rightarrow> heap \<Rightarrow> ptr \<Rightarrow> heap res"
  and Freeze_loop :: "nat \<Rightarrow> heap \<Rightarrow> addr \<Rightarrow> bool \<Rightarrow> nat \<Rightarrow> heap res" where
  "Freeze 0 h self = Inl OutOfFuel"
| "Freeze (Suc n) h self =
     (case self of
        NilPtr \<Rightarrow> Inr h
      | Ptr a \<Rightarrow>
          if iterCounter (cells h a) < 0 then Inr h
          else (case Freeze_loop n h a (IsArray h self) 0 of
                  Inl f \<Rightarrow> Inl f
                | Inr h1 \<Rightarrow> Inr (store h1 a ((cells h1 a)\<lparr>iterCounter := - 1000\<rparr>))))"
| "Freeze_loop 0 h a isArr i = Inl OutOfFuel"
| "Freeze_loop (Suc n) h a isArr i =
     (if i < length (vals (cells h a)) then
        (if \<not> isArr \<and> vals (cells h a) ! i = VDeleted then Freeze_loop n h a isArr (i + 1)
         else (case vals (cells h a) ! i of
                 VDoc d \<Rightarrow>
                   (case Freeze n h d of
                      Inl f \<Rightarrow> Inl f
                    | Inr h1 \<Rightarrow> Freeze_loop n h1 a isArr (i + 1))
               | _ \<Rightarrow> Freeze_loop n h a isArr (i + 1)))
      else Inr h)"

section \<open>Clone\<close>

text \<open>
  \<^verbatim>\<open>cloneValue\<close> and the two loops of \<^verbatim>\<open>Clone\<close>; \<open>rec\<close> is the recursive call
  \<^verbatim>\<open>v.Clone()\<close>. The loops run over the slice that \<^verbatim>\<open>range self.values\<close>
  captured. The map loop tests \<^verbatim>\<open>self.values[i]\<close> and reads \<^verbatim>\<open>self.ordKeys[i]\<close>
  in the store, and inserts through the public \<^verbatim>\<open>Set\<close>.
\<close>

definition cloneValue :: "(heap \<Rightarrow> ptr \<Rightarrow> (ptr \<times> heap) res) \<Rightarrow> heap \<Rightarrow> val \<Rightarrow> (val \<times> heap) res" where
  "cloneValue rec h x =
     (case x of
        VDoc p \<Rightarrow> (case rec h p of Inl f \<Rightarrow> Inl f | Inr (q, h1) \<Rightarrow> Inr (VDoc q, h1))
      | _ \<Rightarrow> Inr (x, h))"

fun Clone_array ::
  "(heap \<Rightarrow> ptr \<Rightarrow> (ptr \<times> heap) res) \<Rightarrow> heap \<Rightarrow> addr \<Rightarrow> val list \<Rightarrow> heap res" where
  "Clone_array rec h x [] = Inr h"
| "Clone_array rec h x (y # ys) =
     (case cloneValue rec h y of
        Inl f \<Rightarrow> Inl f
      | Inr (y1, h1) \<Rightarrow>
          Clone_array rec (store h1 x ((cells h1 x)\<lparr>vals := vals (cells h1 x) @ [y1]\<rparr>)) x ys)"

fun Clone_map ::
  "(heap \<Rightarrow> ptr \<Rightarrow> (ptr \<times> heap) res) \<Rightarrow> heap \<Rightarrow> ptr \<Rightarrow> addr \<Rightarrow> nat \<Rightarrow> val list \<Rightarrow> heap res" where
  "Clone_map rec h x a i [] = Inr h"
| "Clone_map rec h x a i (y # ys) =
     (if length (vals (cells h a)) \<le> i then Inl IndexOutOfRange
      else if vals (cells h a) ! i = VDeleted then Clone_map rec h x a (i + 1) ys
      else if length (ordKeys (cells h a)) \<le> i then Inl IndexOutOfRange
      else (case cloneValue rec h y of
              Inl f \<Rightarrow> Inl f
            | Inr (y1, h1) \<Rightarrow>
                (case Set h1 x (ordKeys (cells h a) ! i) y1 of
                   Inl f \<Rightarrow> Inl f
                 | Inr h2 \<Rightarrow> Clone_map rec h2 x a (i + 1) ys)))"

text \<open>
  \<^verbatim>\<open>Clone\<close> recurses through the store and does not return on a cyclic document; the
  fuel bounds the nesting depth.
\<close>

primrec Clone :: "nat \<Rightarrow> heap \<Rightarrow> ptr \<Rightarrow> (ptr \<times> heap) res" where
  "Clone 0 h self = Inl OutOfFuel"
| "Clone (Suc n) h self =
     (case self of
        NilPtr \<Rightarrow> Inr (NilPtr, h)
      | Ptr a \<Rightarrow>
          if IsArray h self then
            (case Clone_array (Clone n) (snd (NewArray h)) (fresh h) (vals (cells h a)) of
               Inl f \<Rightarrow> Inl f
             | Inr h1 \<Rightarrow> Inr (fst (NewArray h), h1))
          else
            (case Clone_map (Clone n) (snd (NewMap h)) (fst (NewMap h)) a 0 (vals (cells h a)) of
               Inl f \<Rightarrow> Inl f
             | Inr h1 \<Rightarrow> Inr (fst (NewMap h), h1)))"

section \<open>Iteration\<close>

text \<open>
  A callback may do anything to the store, so it maps the caller's state and the store
  to the new ones (or panics). The loops re-read \<^verbatim>\<open>len(self.values)\<close> on every
  step, and a callback that keeps inserting keeps them running: they carry fuel.
  \<^verbatim>\<open>Iterate\<close> calls \<^verbatim>\<open>packing\<close> before its deferred decrement of the counter runs.
\<close>

type_synonym 's callback = "string \<Rightarrow> val \<Rightarrow> 's \<times> heap \<Rightarrow> (bool \<times> 's \<times> heap) res"

fun Iterate_array :: "nat \<Rightarrow> 's callback \<Rightarrow> addr \<Rightarrow> nat \<Rightarrow> 's \<times> heap \<Rightarrow> ('s \<times> heap) res" where
  "Iterate_array 0 cb a i sh = Inl OutOfFuel"
| "Iterate_array (Suc n) cb a i sh =
     (if i < length (vals (cells (snd sh) a)) then
        (case cb [] (vals (cells (snd sh) a) ! i) sh of
           Inl f \<Rightarrow> Inl f
         | Inr (continue, sh1) \<Rightarrow>
             if \<not> continue then Inr sh1 else Iterate_array n cb a (i + 1) sh1)
      else Inr sh)"

fun Iterate_map :: "nat \<Rightarrow> 's callback \<Rightarrow> addr \<Rightarrow> nat \<Rightarrow> 's \<times> heap \<Rightarrow> ('s \<times> heap) res" where
  "Iterate_map 0 cb a i sh = Inl OutOfFuel"
| "Iterate_map (Suc n) cb a i sh =
     (let d = cells (snd sh) a in
      if i < length (vals d) then
        (if vals d ! i = VDeleted then Iterate_map n cb a (i + 1) sh
         else if length (ordKeys d) \<le> i then Inl IndexOutOfRange
         else (case cb (ordKeys d ! i) (vals d ! i) sh of
                 Inl f \<Rightarrow> Inl f
               | Inr (continue, sh1) \<Rightarrow>
                   if \<not> continue then Inr sh1 else Iterate_map n cb a (i + 1) sh1))
      else Inr sh)"

definition bump :: "heap \<Rightarrow> addr \<Rightarrow> int \<Rightarrow> heap" where
  "bump h a k = store h a ((cells h a)\<lparr>iterCounter := iterCounter (cells h a) + k\<rparr>)"

definition Iterate :: "nat \<Rightarrow> 's callback \<Rightarrow> heap \<Rightarrow> ptr \<Rightarrow> 's \<Rightarrow> ('s \<times> heap) res" where
  "Iterate n cb h self s =
     (case self of
        NilPtr \<Rightarrow> Inr (s, h)
      | Ptr a \<Rightarrow>
          if IsArray h self then Iterate_array n cb a 0 (s, h)
          else
            (let counted = (iterCounter (cells h a) \<ge> 0);
                 h0 = (if counted then bump h a 1 else h)
             in case Iterate_map n cb a 0 (s, h0) of
                  Inl f \<Rightarrow> Inl f
                | Inr (s1, h1) \<Rightarrow>
                    (case packing h1 self of
                       Inl f \<Rightarrow> Inl f
                     | Inr h2 \<Rightarrow> Inr (s1, if counted then bump h2 a (- 1) else h2))))"

text \<open>
  \<^verbatim>\<open>Visit\<close>: the callback has no result. After the callback the loop reads
  \<^verbatim>\<open>self.values[i]\<close> again for its type test. \<open>rec\<close> is the recursive call
  \<^verbatim>\<open>d.visit(p, cb)\<close>; the loop carries fuel of its own, one unit a step.
\<close>

type_synonym 's visitor = "string \<Rightarrow> val \<Rightarrow> 's \<times> heap \<Rightarrow> ('s \<times> heap) res"

fun visit_loop ::
  "(string \<Rightarrow> ptr \<Rightarrow> 's \<times> heap \<Rightarrow> ('s \<times> heap) res) \<Rightarrow> nat \<Rightarrow> 's visitor \<Rightarrow> string \<Rightarrow> addr \<Rightarrow> bool
     \<Rightarrow> nat \<Rightarrow> 's \<times> heap \<Rightarrow> ('s \<times> heap) res" where
  "visit_loop rec 0 cb prefix a isArr i sh = Inl OutOfFuel"
| "visit_loop rec (Suc n) cb prefix a isArr i sh =
     (let d = cells (snd sh) a in
      if i < length (vals d) then
        (if \<not> isArr \<and> vals d ! i = VDeleted then visit_loop rec n cb prefix a isArr (i + 1) sh
         else if \<not> isArr \<and> length (ordKeys d) \<le> i then Inl IndexOutOfRange
         else
           (let p = prefix @ (if isArr then Itoa (int i) else ordKeys d ! i) in
            case cb p (vals d ! i) sh of
              Inl f \<Rightarrow> Inl f
            | Inr sh1 \<Rightarrow>
                if length (vals (cells (snd sh1) a)) \<le> i then Inl IndexOutOfRange
                else (case (case vals (cells (snd sh1) a) ! i of
                              VDoc c \<Rightarrow> rec p c sh1
                            | _ \<Rightarrow> Inr sh1) of
                        Inl f \<Rightarrow> Inl f
                      | Inr sh2 \<Rightarrow> visit_loop rec n cb prefix a isArr (i + 1) sh2)))
      else Inr sh)"

primrec visit :: "nat \<Rightarrow> 's visitor \<Rightarrow> string \<Rightarrow> ptr \<Rightarrow> 's \<times> heap \<Rightarrow> ('s \<times> heap) res" where
  "visit 0 cb path self sh = Inl OutOfFuel"
| "visit (Suc n) cb path self sh =
     (case self of
        NilPtr \<Rightarrow> Inr sh
      | Ptr a \<Rightarrow>
          visit_loop (visit n cb) n cb (if path \<noteq> [] then path @ ''/'' else path) a
            (IsArray (snd sh) self) 0 sh)"

definition Visit :: "nat \<Rightarrow> 's visitor \<Rightarrow> heap \<Rightarrow> ptr \<Rightarrow> 's \<Rightarrow> ('s \<times> heap) res" where
  "Visit n cb h self s = visit n cb [] self (s, h)"

section \<open>String escaping (strings.go)\<close>

definition lsb :: "64 word" where
  "lsb = 0x0101010101010101"

definition msb :: "64 word" where
  "msb = 0x8080808080808080"

definition expand :: "nat \<Rightarrow> 64 word" where
  "expand b = lsb * of_nat b"

definition below :: "64 word \<Rightarrow> nat \<Rightarrow> 64 word" where
  "below n b = n - expand b"

definition contains :: "64 word \<Rightarrow> nat \<Rightarrow> 64 word" where
  "contains n b = (n XOR expand b) - lsb"

text \<open>\<^verbatim>\<open>stringToUint64\<close> reinterprets the bytes in place; the words are little-endian.\<close>

fun le_word :: "string \<Rightarrow> 64 word" where
  "le_word [] = 0"
| "le_word (c # cs) = of_nat (of_char c) + push_bit 8 (le_word cs)"

fun stringToUint64 :: "string \<Rightarrow> 64 word list" where
  "stringToUint64 s = (if length s < 8 then [] else le_word (take 8 s) # stringToUint64 (drop 8 s))"

declare stringToUint64.simps [simp del]

fun trailing_zeros :: "nat \<Rightarrow> 64 word \<Rightarrow> nat" where
  "trailing_zeros 0 w = 0"
| "trailing_zeros (Suc k) w = (if bit w 0 then 0 else Suc (trailing_zeros k (drop_bit 1 w)))"

definition TrailingZeros64 :: "64 word \<Rightarrow> nat" where
  "TrailingZeros64 w = trailing_zeros 64 w"

text \<open>The chunk loop returns the byte position inside the chunk it stopped at.\<close>

fun escapeIndex_chunks :: "64 word list \<Rightarrow> bool \<Rightarrow> int option" where
  "escapeIndex_chunks [] escapeHTML = None"
| "escapeIndex_chunks (n # ns) escapeHTML =
     (let mask0 = n OR below n 0x20 OR contains n 0x22 OR contains n 0x5C;
          mask = (if escapeHTML
                  then mask0 OR (contains n 0x3C OR contains n 0x3E OR contains n 0x26)
                  else mask0)
      in if mask AND msb \<noteq> 0 then Some (int (TrailingZeros64 (mask AND msb) div 8))
         else escapeIndex_chunks ns escapeHTML)"

fun escapeIndex_tail :: "string \<Rightarrow> nat \<Rightarrow> bool \<Rightarrow> int" where
  "escapeIndex_tail [] i escapeHTML = - 1"
| "escapeIndex_tail (x # xs) i escapeHTML =
     (let c = of_char x :: nat in
      if c < 0x20 \<or> c > 0x7f \<or> c = 0x22 \<or> c = 0x5C
         \<or> (escapeHTML \<and> (c = 0x3C \<or> c = 0x3E \<or> c = 0x26))
      then int i else escapeIndex_tail xs (i + 1) escapeHTML)"

definition escapeIndex :: "string \<Rightarrow> bool \<Rightarrow> int" where
  "escapeIndex s escapeHTML =
     (let chunks = stringToUint64 s in
      case escapeIndex_chunks chunks escapeHTML of
        Some r \<Rightarrow> r
      | None \<Rightarrow> escapeIndex_tail (drop (length chunks * 8) s) (length chunks * 8) escapeHTML)"

text \<open>
  \<^verbatim>\<open>utf8.DecodeRuneInString\<close> of the Go standard library: the rune and the number of
  bytes read; an invalid or truncated sequence gives \<^verbatim>\<open>(RuneError, 1)\<close>.
\<close>

definition RuneError :: nat where
  "RuneError = 0xFFFD"

definition DecodeRuneInString :: "string \<Rightarrow> nat \<times> nat" where
  "DecodeRuneInString s =
     (case map of_char s of
        [] \<Rightarrow> (RuneError, 0)
      | b0 # r \<Rightarrow>
          if b0 < 0x80 then (b0, 1)
          else if b0 < 0xC2 \<or> 0xF4 < b0 then (RuneError, 1)
          else if b0 < 0xE0 then
            (case r of
               b1 # _ \<Rightarrow>
                 if 0x80 \<le> b1 \<and> b1 \<le> 0xBF then ((b0 mod 32) * 64 + b1 mod 64, 2)
                 else (RuneError, 1)
             | _ \<Rightarrow> (RuneError, 1))
          else if b0 < 0xF0 then
            (case r of
               b1 # b2 # _ \<Rightarrow>
                 if (if b0 = 0xE0 then 0xA0 else 0x80) \<le> b1
                    \<and> b1 \<le> (if b0 = 0xED then 0x9F else 0xBF)
                    \<and> 0x80 \<le> b2 \<and> b2 \<le> 0xBF
                 then ((b0 mod 16) * 4096 + (b1 mod 64) * 64 + b2 mod 64, 3)
                 else (RuneError, 1)
             | _ \<Rightarrow> (RuneError, 1))
          else
            (case r of
               b1 # b2 # b3 # _ \<Rightarrow>
                 if (if b0 = 0xF0 then 0x90 else 0x80) \<le> b1
                    \<and> b1 \<le> (if b0 = 0xF4 then 0x8F else 0xBF)
                    \<and> 0x80 \<le> b2 \<and> b2 \<le> 0xBF \<and> 0x80 \<le> b3 \<and> b3 \<le> 0xBF
                 then ((b0 mod 8) * 262144 + (b1 mod 64) * 4096 + (b2 mod 64) * 64 + b3 mod 64, 4)
                 else (RuneError, 1)
             | _ \<Rightarrow> (RuneError, 1)))"

lemma DecodeRuneInString_size: "s \<noteq> [] \<Longrightarrow> 1 \<le> snd (DecodeRuneInString s)"
  by (auto simp: DecodeRuneInString_def split: list.splits)

definition gHex :: "nat \<Rightarrow> char" where
  "gHex n = ''0123456789abcdef'' ! n"

text \<open>
  One step of the loop of \<^verbatim>\<open>encodeString\<close> (with \<^verbatim>\<open>escapeHTML\<close> fixed to
  true): \<open>b\<close> is the buffer, \<open>i\<close> the start of the run not yet copied, \<open>j\<close> the
  position of the byte looked at. The step gives the new \<open>b\<close>, \<open>i\<close> and \<open>j\<close>.
\<close>

definition encodeString_step :: "string \<Rightarrow> string \<Rightarrow> nat \<Rightarrow> nat \<Rightarrow> string \<times> nat \<times> nat" where
  "encodeString_step s b i j =
     (let c = of_char (s ! j) :: nat; run = take (j - i) (drop i s) in
      if 0x20 \<le> c \<and> c \<le> 0x7f \<and> c \<noteq> 0x5C \<and> c \<noteq> 0x22
         \<and> c \<noteq> 0x3C \<and> c \<noteq> 0x3E \<and> c \<noteq> 0x26
      then (b, i, j + 1)
      else if c = 0x5C \<or> c = 0x22 then (b @ run @ [CHR 0x5C, s ! j], j + 1, j + 1)
      else if c = 0x0A then (b @ run @ [CHR 0x5C, CHR ''n''], j + 1, j + 1)
      else if c = 0x0D then (b @ run @ [CHR 0x5C, CHR ''r''], j + 1, j + 1)
      else if c = 0x09 then (b @ run @ [CHR 0x5C, CHR ''t''], j + 1, j + 1)
      else if c = 0x3C \<or> c = 0x3E \<or> c = 0x26 \<or> c < 0x20 then
        (b @ run @ [CHR 0x5C, CHR ''u'', CHR ''0'', CHR ''0'', gHex (c div 16), gHex (c mod 16)],
         j + 1, j + 1)
      else
        (let r = fst (DecodeRuneInString (drop j s));
             size1 = snd (DecodeRuneInString (drop j s)) in
         if r = RuneError \<and> size1 = 1 then
           (b @ run @ [CHR 0x5C, CHR ''u'', CHR ''f'', CHR ''f'', CHR ''f'', CHR ''d''],
            j + size1, j + size1)
         else if r = 0x2028 \<or> r = 0x2029 then
           (b @ run @ [CHR 0x5C, CHR ''u'', CHR ''2'', CHR ''0'', CHR ''2'', gHex (r mod 16)],
            j + size1, j + size1)
         else (b, i, j + size1)))"

lemma encodeString_step_progress:
  "j < length s \<Longrightarrow> j < snd (snd (encodeString_step s b i j))"
  using DecodeRuneInString_size [of "drop j s"]
  by (simp add: encodeString_step_def Let_def)

function encodeString_loop :: "string \<Rightarrow> string \<Rightarrow> nat \<Rightarrow> nat \<Rightarrow> string" where
  "encodeString_loop s b i j =
     (if j < length s then
        encodeString_loop s (fst (encodeString_step s b i j))
          (fst (snd (encodeString_step s b i j))) (snd (snd (encodeString_step s b i j)))
      else b @ drop i s @ [CHR 0x22])"
  by pat_completeness auto
termination
proof (relation "measure (\<lambda>(s, b, i, j). length s - j)", goal_cases)
  case 1
  show ?case by simp
next
  case (2 s b i j)
  then show ?case using encodeString_step_progress [of j s b i]
    by (cases "encodeString_step s b i j") auto
qed

declare encodeString_loop.simps [simp del]

definition encodeString :: "string \<Rightarrow> string \<Rightarrow> string" where
  "encodeString b s =
     (if length s = 0 then b @ [CHR 0x22, CHR 0x22]
      else
        (let j = (if length s \<ge> 8 then escapeIndex s True else 0) in
         if j < 0 then b @ [CHR 0x22] @ s @ [CHR 0x22]
         else encodeString_loop s (b @ [CHR 0x22]) 0 (nat j)))"

section \<open>Serialization\<close>

text \<open>
  \<^verbatim>\<open>scalar2str\<close>; \<^verbatim>\<open>writeTo\<close> has the same two statements inline.
\<close>

definition scalar2str :: "ext \<Rightarrow> val \<Rightarrow> string" where
  "scalar2str X x = Append_njson X (case x of VTime tm \<Rightarrow> VString (FormatTime X tm) | _ \<Rightarrow> x)"

definition sep :: "bool \<Rightarrow> string \<Rightarrow> string" where
  "sep pretty nestedIdent = (if pretty then [CHR 0x0A] @ nestedIdent else [])"

text \<open>
  The two loops of \<^verbatim>\<open>writeTo\<close>, over the slice that \<^verbatim>\<open>range self.values\<close>
  captured. \<open>rec\<close> is the recursive call \<^verbatim>\<open>container.writeTo(w, pretty, nestedIdent)\<close>;
  \<open>i\<close> is the slot, \<open>idx\<close> the number of entries written so far.
\<close>

fun writeTo_array ::
  "(ptr \<Rightarrow> string \<Rightarrow> string res) \<Rightarrow> ext \<Rightarrow> string \<Rightarrow> bool \<Rightarrow> string \<Rightarrow> nat \<Rightarrow> val list
     \<Rightarrow> string res" where
  "writeTo_array rec X w pretty nestedIdent idx [] = Inr w"
| "writeTo_array rec X w pretty nestedIdent idx (x # xs) =
     (let w1 = (if idx \<noteq> 0 then w @ '','' @ sep pretty nestedIdent else w) in
      case (case x of
              VDoc container \<Rightarrow> rec container w1
            | _ \<Rightarrow> Inr (w1 @ scalar2str X x)) of
        Inl f \<Rightarrow> Inl f
      | Inr w2 \<Rightarrow> writeTo_array rec X w2 pretty nestedIdent (idx + 1) xs)"

fun writeTo_map ::
  "(ptr \<Rightarrow> string \<Rightarrow> string res) \<Rightarrow> ext \<Rightarrow> string list \<Rightarrow> string \<Rightarrow> bool \<Rightarrow> string \<Rightarrow> nat \<Rightarrow> nat
     \<Rightarrow> val list \<Rightarrow> string res" where
  "writeTo_map rec X oks w pretty nestedIdent i idx [] = Inr w"
| "writeTo_map rec X oks w pretty nestedIdent i idx (x # xs) =
     (if x = VDeleted then writeTo_map rec X oks w pretty nestedIdent (i + 1) idx xs
      else if length oks \<le> i then Inl IndexOutOfRange
      else
        (let w1 = (if idx \<noteq> 0 then w @ '','' @ sep pretty nestedIdent else w);
             w2 = encodeString w1 (oks ! i) @ (if pretty then '': '' else '':'')
         in case (case x of
                    VDoc container \<Rightarrow> rec container w2
                  | _ \<Rightarrow> Inr (w2 @ scalar2str X x)) of
              Inl f \<Rightarrow> Inl f
            | Inr w3 \<Rightarrow> writeTo_map rec X oks w3 pretty nestedIdent (i + 1) (idx + 1) xs))"

text \<open>
  \<^verbatim>\<open>writeTo\<close> appends to the buffer \<open>w\<close>. The fuel bounds the nesting depth. A nil
  receiver is not an array and has length 0, so it is written as an empty object.
\<close>

primrec writeTo :: "nat \<Rightarrow> ext \<Rightarrow> heap \<Rightarrow> ptr \<Rightarrow> string \<Rightarrow> bool \<Rightarrow> string \<Rightarrow> string res" where
  "writeTo 0 X h self w pretty ident = Inl OutOfFuel"
| "writeTo (Suc n) X h self w pretty ident =
     (let nestedIdent = (if pretty then ident @ ''  '' else ident);
          close = (if pretty then [CHR 0x0A] @ ident else [])
      in case self of
           NilPtr \<Rightarrow> Inr (w @ ''{}'')
         | Ptr a \<Rightarrow>
             if IsArray h self then
               (if Len h self = 0 then Inr (w @ ''[]'')
                else (case writeTo_array (\<lambda>c w1. writeTo n X h c w1 pretty nestedIdent) X
                             (w @ ''['' @ sep pretty nestedIdent) pretty nestedIdent 0
                             (vals (cells h a)) of
                        Inl f \<Rightarrow> Inl f
                      | Inr w1 \<Rightarrow> Inr (w1 @ close @ '']'')))
             else
               (if Len h self = 0 then Inr (w @ ''{}'')
                else (case writeTo_map (\<lambda>c w1. writeTo n X h c w1 pretty nestedIdent) X
                             (ordKeys (cells h a)) (w @ ''{'' @ sep pretty nestedIdent) pretty
                             nestedIdent 0 0 (vals (cells h a)) of
                        Inl f \<Rightarrow> Inl f
                      | Inr w1 \<Rightarrow> Inr (w1 @ close @ ''}''))))"

definition JSONLine :: "nat \<Rightarrow> ext \<Rightarrow> heap \<Rightarrow> ptr \<Rightarrow> string res" where
  "JSONLine n X h self = writeTo n X h self [] False []"

definition JSON :: "nat \<Rightarrow> ext \<Rightarrow> heap \<Rightarrow> ptr \<Rightarrow> string res" where
  "JSON n X h self = writeTo n X h self [] True []"

section \<open>Typed getters\<close>

text \<open>
  \<^verbatim>\<open>value2int\<close>, in the order of the source: json.Number (after trimming a final
  \<^verbatim>\<open>.0\<close>), float64, int, int64, string. A json.Number that does not parse falls
  through every later type test.
\<close>

definition value2int :: "ext \<Rightarrow> val \<Rightarrow> int \<Rightarrow> int" where
  "value2int X x defaultValue =
     (case (case x of VNumber n \<Rightarrow> ParseInt (TrimSuffix n ''.0'') | _ \<Rightarrow> None) of
        Some i \<Rightarrow> i
      | None \<Rightarrow>
          (case x of
             VFloat f \<Rightarrow> RoundToInt X f
           | VInt i \<Rightarrow> i
           | VInt64 i \<Rightarrow> i
           | VString s \<Rightarrow> (case ParseInt s of Some i \<Rightarrow> i | None \<Rightarrow> defaultValue)
           | _ \<Rightarrow> defaultValue))"

definition GetInt :: "ext \<Rightarrow> heap \<Rightarrow> ptr \<Rightarrow> string \<Rightarrow> int \<Rightarrow> (int \<times> heap) res" where
  "GetInt X h self path defaultValue =
     (case doOp h self path False False VNil of
        Inl f \<Rightarrow> Inl f
      | Inr ((x, ok), h1) \<Rightarrow>
          if \<not> ok then Inr (defaultValue, h1) else Inr (value2int X x defaultValue, h1))"

definition GetFloat :: "ext \<Rightarrow> heap \<Rightarrow> ptr \<Rightarrow> string \<Rightarrow> float64 \<Rightarrow> (float64 \<times> heap) res" where
  "GetFloat X h self path defaultValue =
     (case doOp h self path False False VNil of
        Inl f \<Rightarrow> Inl f
      | Inr ((x, ok), h1) \<Rightarrow>
          if \<not> ok then Inr (defaultValue, h1)
          else (case (case x of VNumber n \<Rightarrow> ParseFloat X n | _ \<Rightarrow> None) of
                  Some f \<Rightarrow> Inr (f, h1)
                | None \<Rightarrow>
                    (case x of
                       VFloat f \<Rightarrow> Inr (f, h1)
                     | VString s \<Rightarrow>
                         (case ParseFloat X s of
                            Some f \<Rightarrow> Inr (f, h1)
                          | None \<Rightarrow> Inr (defaultValue, h1))
                     | _ \<Rightarrow> Inr (defaultValue, h1))))"

definition GetBool :: "heap \<Rightarrow> ptr \<Rightarrow> string \<Rightarrow> bool \<Rightarrow> (bool \<times> heap) res" where
  "GetBool h self path defaultValue =
     (case doOp h self path False False VNil of
        Inl f \<Rightarrow> Inl f
      | Inr ((x, ok), h1) \<Rightarrow>
          if \<not> ok then Inr (defaultValue, h1)
          else (case x of VBool n \<Rightarrow> Inr (n, h1) | _ \<Rightarrow> Inr (defaultValue, h1)))"

text \<open>
  \<^verbatim>\<open>value2string\<close>, in the order of the source: string, json.Number, int, int64,
  a \<^verbatim>\<open>DynamicJSON\<close> struct value, time.Time. For the struct value the source calls
  \<^verbatim>\<open>j.JSONLine()\<close> on the local copy \<^verbatim>\<open>j\<close>: the copy is put at an unused address
  of a store that is dropped afterwards. The serializer recurses, so the fuel \<open>n\<close> is
  passed on, and the result may be a panic or no result at all.
\<close>

definition struct_of :: "(string \<rightharpoonup> nat) option \<Rightarrow> string list \<Rightarrow> int \<Rightarrow> val list \<Rightarrow> DynamicJSON" where
  "struct_of ks oks ic xs = \<lparr>keys = ks, ordKeys = oks, iterCounter = ic, vals = xs\<rparr>"

definition value2string :: "nat \<Rightarrow> ext \<Rightarrow> heap \<Rightarrow> val \<Rightarrow> string \<Rightarrow> string res" where
  "value2string n X h x defaultValue =
     (case x of
        VString s \<Rightarrow> Inr s
      | VNumber t \<Rightarrow> Inr t
      | VInt i \<Rightarrow> Inr (Itoa i)
      | VInt64 i \<Rightarrow> Inr (Itoa i)
      | VStruct ks oks ic xs \<Rightarrow>
          JSONLine n X (snd (alloc h (struct_of ks oks ic xs))) (fst (alloc h (struct_of ks oks ic xs)))
      | VTime tm \<Rightarrow> Inr (FormatTime X tm)
      | _ \<Rightarrow> Inr defaultValue)"

definition GetString :: "nat \<Rightarrow> ext \<Rightarrow> heap \<Rightarrow> ptr \<Rightarrow> string \<Rightarrow> string \<Rightarrow> (string \<times> heap) res" where
  "GetString n X h self path defaultValue =
     (case doOp h self path False False VNil of
        Inl f \<Rightarrow> Inl f
      | Inr ((x, ok), h1) \<Rightarrow>
          if \<not> ok then Inr (defaultValue, h1)
          else (case value2string n X h1 x defaultValue of
                  Inl f \<Rightarrow> Inl f
                | Inr r \<Rightarrow> Inr (r, h1)))"

text \<open>
  \<^verbatim>\<open>Map(name)\<close> (called \<open>Map_dj\<close>): the child at \<open>name\<close> when it is a
  \<^verbatim>\<open>*DynamicJSON\<close> that is not an array (a typed nil pointer is not an array and is
  returned as it is); otherwise a new map, stored with \<^verbatim>\<open>set\<close>, whose result is
  dropped.
\<close>

definition Map_dj :: "heap \<Rightarrow> ptr \<Rightarrow> string \<Rightarrow> (ptr \<times> heap) res" where
  "Map_dj h self name =
     (case self of
        NilPtr \<Rightarrow> Inr (NilPtr, h)
      | Ptr a \<Rightarrow>
          (case get h self name of
             Inl f \<Rightarrow> Inl f
           | Inr (x, ok) \<Rightarrow>
               (case (if ok then x else VNil) of
                  VDoc m \<Rightarrow>
                    if \<not> IsArray h m then Inr (m, h)
                    else (case set_dj (snd (NewMap h)) self name (VDoc (fst (NewMap h))) of
                            Inl f \<Rightarrow> Inl f
                          | Inr (_, h1) \<Rightarrow> Inr (fst (NewMap h), h1))
                | _ \<Rightarrow>
                    (case set_dj (snd (NewMap h)) self name (VDoc (fst (NewMap h))) of
                       Inl f \<Rightarrow> Inl f
                     | Inr (_, h1) \<Rightarrow> Inr (fst (NewMap h), h1)))))"

section \<open>Evaluation on concrete documents\<close>

text \<open>A store with nothing allocated, and stand-ins for the library functions.\<close>

definition empty_heap :: heap where
  "empty_heap = \<lparr>cells = (\<lambda>_. \<lparr>keys = None, ordKeys = [], iterCounter = 0, vals = []\<rparr>), fresh = 0\<rparr>"

definition plain_ext :: ext where
  "plain_ext =
     \<lparr>Append_njson =
        (\<lambda>x. case x of
                VNil \<Rightarrow> ''null''
              | VBool b \<Rightarrow> (if b then ''true'' else ''false'')
              | VNumber n \<Rightarrow> n
              | VInt i \<Rightarrow> Itoa i
              | VInt64 i \<Rightarrow> Itoa i
              | VString s \<Rightarrow> encodeString [] s
              | _ \<Rightarrow> ''{}''),
      ParseFloat = (\<lambda>s. None),
      RoundToInt = (\<lambda>f. 0),
      FormatTime = (\<lambda>t. Itoa t)\<rparr>"

lemmas eval_defs =
  empty_heap_def plain_ext_def NewMap_def NewArray_def alloc_def store_def Set_def doOp_def
  set_dj_def SetI_def get_def createLevelFromNextPath_def key2Index_def convertToDJ_def
  JSONLine_def IsArray_def IsFrozen_def Len_def extend_store_def scalar2str_def sep_def
  encodeString_def encodeString_step_def Let_def Itoa_def Append_def Keys_def packing_def
  Nested_def Fetch_def Get_def bump_def Map_dj_def cloneValue_def Iterate_def Visit_def
  GetInt_def GetFloat_def GetBool_def GetString_def value2int_def value2string_def
  struct_of_def doOp_loop.simps Delete.simps Has.simps digits.simps encodeString_loop.simps

lemmas char_eval = char_of_def bit_iff_odd

definition dq :: char where
  "dq = CHR 0x22"

definition quoted :: "string \<Rightarrow> string" where
  "quoted s = [dq] @ s @ [dq]"

section \<open>Notions used in the statements\<close>

text \<open>A path with no segment: empty, or slashes only.\<close>

definition only_slashes :: "string \<Rightarrow> bool" where
  "only_slashes p = (filter (\<lambda>c. c \<noteq> CHR ''/'') p = [])"

text \<open>
  A key that \<^verbatim>\<open>key2Index\<close> accepts as an array position: one to nine decimal
  digits; \<open>decimal\<close> is its value.
\<close>

definition is_digit :: "char \<Rightarrow> bool" where
  "is_digit c = (48 \<le> (of_char c :: nat) \<and> (of_char c :: nat) \<le> 57)"

definition decimal :: "string \<Rightarrow> nat" where
  "decimal s = foldl (\<lambda>n c. n * 10 + (of_char c - 48)) 0 s"

definition index_key :: "string \<Rightarrow> bool" where
  "index_key s = (0 < length s \<and> length s < 10 \<and> list_all is_digit s)"

text \<open>
  Every slot index in the key index of a map lies inside \<^verbatim>\<open>values\<close>; otherwise
  \<^verbatim>\<open>get\<close> panics.
\<close>

definition index_ok :: "DynamicJSON \<Rightarrow> bool" where
  "index_ok d = (case keys d of None \<Rightarrow> True | Some m \<Rightarrow> (\<forall>k i. m k = Some i \<longrightarrow> i < length (vals d)))"

text \<open>
  The coercions of the typed getters in the words of the specification: the exact type
  first, then the text of a number, then the text of a string. \<open>None\<close> means that
  no step applies.
\<close>

definition spec_int :: "ext \<Rightarrow> val \<Rightarrow> int option" where
  "spec_int X x =
     (case x of
        VInt i \<Rightarrow> Some i
      | VInt64 i \<Rightarrow> Some i
      | VFloat f \<Rightarrow> Some (RoundToInt X f)
      | VNumber n \<Rightarrow> ParseInt (TrimSuffix n ''.0'')
      | VString s \<Rightarrow> ParseInt s
      | _ \<Rightarrow> None)"

definition spec_float :: "ext \<Rightarrow> val \<Rightarrow> float64 option" where
  "spec_float X x =
     (case x of
        VFloat f \<Rightarrow> Some f
      | VNumber n \<Rightarrow> ParseFloat X n
      | VString s \<Rightarrow> ParseFloat X s
      | _ \<Rightarrow> None)"

definition spec_bool :: "val \<Rightarrow> bool option" where
  "spec_bool x = (case x of VBool b \<Rightarrow> Some b | _ \<Rightarrow> None)"

definition spec_string :: "ext \<Rightarrow> val \<Rightarrow> string option" where
  "spec_string X x =
     (case x of
        VString s \<Rightarrow> Some s
      | VNumber n \<Rightarrow> Some n
      | VInt n \<Rightarrow> Some (Itoa n)
      | VInt64 n \<Rightarrow> Some (Itoa n)
      | VTime tm \<Rightarrow> Some (FormatTime X tm)
      | _ \<Rightarrow> None)"

definition or_default :: "'a option \<Rightarrow> 'a \<Rightarrow> 'a" where
  "or_default r d = (case r of Some y \<Rightarrow> y | None \<Rightarrow> d)"

text \<open>
  The invariant of a container. For a map: \<^verbatim>\<open>ordKeys\<close> and \<^verbatim>\<open>values\<close> have the
  same length, at most \<open>2^32\<close> (slot indexes are uint32); every slot that is not a
  tombstone is indexed under its key; and every entry of the key index points to a slot
  that is not a tombstone and carries that key. An array has no invariant.
  \<open>live_slots\<close> are the positions that hold no tombstone, \<open>live_keys\<close> and
  \<open>live_vals\<close> the keys and values there, in slot order.
\<close>

definition wf_doc :: "DynamicJSON \<Rightarrow> bool" where
  "wf_doc d =
     (case keys d of
        None \<Rightarrow> True
      | Some m \<Rightarrow>
          length (ordKeys d) = length (vals d) \<and> length (vals d) \<le> 2 ^ 32
          \<and> (\<forall>i < length (vals d). vals d ! i \<noteq> VDeleted \<longrightarrow> m (ordKeys d ! i) = Some i)
          \<and> (\<forall>k i. m k = Some i \<longrightarrow>
                 i < length (vals d) \<and> vals d ! i \<noteq> VDeleted \<and> ordKeys d ! i = k))"

definition heap_wf :: "heap \<Rightarrow> bool" where
  "heap_wf h = (\<forall>a. wf_doc (cells h a))"

definition live_slots :: "val list \<Rightarrow> nat list" where
  "live_slots xs = filter (\<lambda>i. xs ! i \<noteq> VDeleted) [0..<length xs]"

definition live_keys :: "DynamicJSON \<Rightarrow> string list" where
  "live_keys d = map (\<lambda>i. ordKeys d ! i) (live_slots (vals d))"

definition live_vals :: "DynamicJSON \<Rightarrow> val list" where
  "live_vals d = filter (\<lambda>x. x \<noteq> VDeleted) (vals d)"

fun renumber :: "(string \<rightharpoonup> nat) \<Rightarrow> string list \<Rightarrow> nat \<Rightarrow> (string \<rightharpoonup> nat)" where
  "renumber ks [] j = ks"
| "renumber ks (k # r) j = renumber (ks(k \<mapsto> j)) r (j + 1)"

text \<open>The loop of packing, as a recursion over the remaining slots.\<close>

fun pack_list ::
  "(string \<times> val) list \<Rightarrow> val list \<Rightarrow> string list \<Rightarrow> (string \<rightharpoonup> nat) \<Rightarrow> nat
     \<Rightarrow> (val list \<times> string list \<times> (string \<rightharpoonup> nat)) res" where
  "pack_list [] vs os ks j = Inr (vs, os, ks)"
| "pack_list (kv # r) vs os ks j =
     (if snd kv = VDeleted then pack_list r vs os ks j
      else if length vs \<le> j then Inl IndexOutOfRange
      else if length os \<le> j then Inl IndexOutOfRange
      else pack_list r (vs[j := snd kv]) (os[j := fst kv]) (ks(fst kv \<mapsto> j)) ((j + 1) mod 2 ^ 32))"

definition packed :: "DynamicJSON \<Rightarrow> (string \<rightharpoonup> nat) \<Rightarrow> DynamicJSON" where
  "packed d m = d\<lparr>keys := Some (renumber m (live_keys d) 0), vals := live_vals d,
                 ordKeys := live_keys d\<rparr>"

definition ins :: "DynamicJSON \<Rightarrow> (string \<rightharpoonup> nat) \<Rightarrow> string \<Rightarrow> val \<Rightarrow> DynamicJSON" where
  "ins d m k v = d\<lparr>keys := Some (m(k \<mapsto> length (vals d))), vals := vals d @ [v],
                  ordKeys := ordKeys d @ [k]\<rparr>"

definition upd :: "DynamicJSON \<Rightarrow> nat \<Rightarrow> string \<Rightarrow> val \<Rightarrow> DynamicJSON" where
  "upd d i k v = d\<lparr>vals := (vals d)[i := v], ordKeys := (ordKeys d)[i := k]\<rparr>"

definition tomb :: "DynamicJSON \<Rightarrow> (string \<rightharpoonup> nat) \<Rightarrow> string \<Rightarrow> nat \<Rightarrow> DynamicJSON" where
  "tomb d m k i = d\<lparr>vals := (vals d)[i := VDeleted], keys := Some (m(k := None))\<rparr>"

definition set_node :: "DynamicJSON \<Rightarrow> (string \<rightharpoonup> nat) \<Rightarrow> string \<Rightarrow> val \<Rightarrow> DynamicJSON" where
  "set_node d m x v = (case m x of Some i \<Rightarrow> upd d i x v | None \<Rightarrow> ins d m x v)"


text \<open>
  \<open>room h k\<close>: every map of the store can take \<open>k\<close> more slots before its slot
  index leaves the range of a uint32.
\<close>

definition room :: "heap \<Rightarrow> nat \<Rightarrow> bool" where
  "room h k = (\<forall>a. keys (cells h a) \<noteq> None \<longrightarrow> length (vals (cells h a)) + k \<le> 2 ^ 32)"

text \<open>
  Two documents for the typed getters. \<open>getter_doc\<close> is the map
  \<^verbatim>\<open>{"n": json.Number("42.0"), "s": "true", "b": true, "j": DynamicJSON{"k": 1}}\<close>,
  the last entry being a struct value, not a pointer. \<open>cyclic_doc\<close> is what
  \<^verbatim>\<open>d := NewMap(); m := NewMap(); m.Set("self", m); d.Set("j", *m)\<close> builds: the
  map \<open>d\<close> at address 0 holds a copy of the struct of \<open>m\<close>, whose only entry points
  to \<open>m\<close> itself at address 1.
\<close>

definition getter_doc :: heap where
  "getter_doc =
     store (snd (NewMap empty_heap)) 0
       \<lparr>keys = Some [''n'' \<mapsto> 0, ''s'' \<mapsto> 1, ''b'' \<mapsto> 2, ''j'' \<mapsto> 3],
        ordKeys = [''n'', ''s'', ''b'', ''j''], iterCounter = 0,
        vals = [VNumber ''42.0'', VString ''true'', VBool True,
                VStruct (Some [''k'' \<mapsto> 0]) [''k''] 0 [VInt 1]]\<rparr>"

definition cyclic_doc :: heap where
  "cyclic_doc =
     store (store (snd (NewMap (snd (NewMap empty_heap)))) 1
              \<lparr>keys = Some [''self'' \<mapsto> 0], ordKeys = [''self''], iterCounter = 0,
               vals = [VDoc (Ptr 1)]\<rparr>) 0
       \<lparr>keys = Some [''j'' \<mapsto> 0], ordKeys = [''j''], iterCounter = 0,
        vals = [VStruct (Some [''self'' \<mapsto> 0]) [''self''] 0 [VDoc (Ptr 1)]]\<rparr>"

section \<open>Mutation of a frozen document\<close>

lemma set_dj_frozen:
  "iterCounter (cells h a) < 0 \<Longrightarrow> set_dj h (Ptr a) key v = Inr (Some FrozenError, h)"
  by (simp add: set_dj_def)

lemma SetI_frozen:
  "iterCounter (cells h a) < 0 \<Longrightarrow> SetI h (Ptr a) i v = Inr (Some FrozenError, h)"
  by (simp add: SetI_def)

lemma Delete_frozen:
  "iterCounter (cells h a) < 0 \<Longrightarrow> Delete h (Ptr a) path = Inr (Some FrozenError, h)"
  by (simp add: Delete.simps)

lemma Set_frozen:
  "iterCounter (cells h a) < 0 \<Longrightarrow> Set h (Ptr a) path v = Inr h"
  by (simp add: Set_def doOp_def)

text \<open>
  C1. \<^verbatim>\<open>set\<close>, \<^verbatim>\<open>SetI\<close> and \<^verbatim>\<open>Delete\<close> return the frozen error and leave the store
  as it is (the lemmas above), and \<^verbatim>\<open>Set\<close> returns without a change. \<^verbatim>\<open>Append\<close>
  has no such test: on a new array that was frozen, \<^verbatim>\<open>Append\<close> of the int 1 stores
  the value, and the frozen array has length 1 afterwards.
\<close>

theorem C1_Append_changes_frozen_array:
  "(case NewArray empty_heap of
      (a, h1) \<Rightarrow>
        (case Freeze (Suc (Suc 0)) h1 a of
           Inl f \<Rightarrow> False
         | Inr h2 \<Rightarrow>
             IsFrozen h2 a = Inr True \<and> Len h2 a = 0
             \<and> IsFrozen (Append h2 a (VInt 1)) a = Inr True
             \<and> Len (Append h2 a (VInt 1)) a = 1
             \<and> Keys (Append h2 a (VInt 1)) a = Inr [''0'']
             \<and> get (Append h2 a (VInt 1)) a ''0'' = Inr (VInt 1, True)))"
  by (simp add: eval_defs char_eval)

section \<open>Freeze\<close>

text \<open>
  C5. An array is frozen, a new (unfrozen) map is appended to it, and the array is
  frozen again: the second \<^verbatim>\<open>Freeze\<close> returns at its test of \<^verbatim>\<open>iterCounter\<close>,
  and the map inside the frozen array is still not frozen and still accepts a key.
\<close>

theorem C5_Freeze_leaves_child_unfrozen:
  "(case NewArray empty_heap of
      (a, h1) \<Rightarrow>
        (case Freeze (Suc (Suc 0)) h1 a of
           Inl f \<Rightarrow> False
         | Inr h2 \<Rightarrow>
             (case NewMap h2 of
                (m, h3) \<Rightarrow>
                  (case Freeze (Suc (Suc (Suc 0))) (Append h3 a (VDoc m)) a of
                     Inl f \<Rightarrow> False
                   | Inr h4 \<Rightarrow>
                       IsFrozen h4 a = Inr True
                       \<and> get h4 a ''0'' = Inr (VDoc m, True)
                       \<and> IsFrozen h4 m = Inr False
                       \<and> (case Set h4 m ''k'' (VInt 1) of
                             Inl f \<Rightarrow> False
                           | Inr h5 \<Rightarrow> Len h5 m = 1)))))"
  by (simp add: eval_defs)

section \<open>Clone\<close>

text \<open>
  C10. A map with the one key \<^verbatim>\<open>a/b\<close> (made by \<^verbatim>\<open>Map("a/b")\<close>, which stores
  through \<^verbatim>\<open>set\<close>, as the parser does) is cloned. \<^verbatim>\<open>Clone\<close> inserts through
  \<^verbatim>\<open>Set\<close>, which reads the key as a path: the clone has the key \<^verbatim>\<open>a\<close> and under
  it a map with the key \<^verbatim>\<open>b\<close>, and the two documents serialize differently.
\<close>

theorem C10_Clone_splits_key_with_slash:
  "(case NewMap empty_heap of
      (d, h1) \<Rightarrow>
        (case Map_dj h1 d ''a/b'' of
           Inl f \<Rightarrow> False
         | Inr (c, h2) \<Rightarrow>
             (case Clone (Suc (Suc (Suc 0))) h2 d of
                Inl f \<Rightarrow> False
              | Inr (x, h3) \<Rightarrow>
                  Keys h3 d = Inr [''a/b''] \<and> Keys h3 x = Inr [''a'']
                  \<and> JSONLine (Suc (Suc (Suc (Suc 0)))) plain_ext h3 d
                      = Inr (''{'' @ quoted ''a/b'' @ '':{}}'')
                  \<and> JSONLine (Suc (Suc (Suc (Suc 0)))) plain_ext h3 x
                      = Inr (''{'' @ quoted ''a'' @ '':{'' @ quoted ''b'' @ '':{}}}''))))"
  by (simp add: eval_defs dq_def quoted_def)

section \<open>A nil receiver\<close>

lemma IndexByte_neq_0: "x \<noteq> c \<Longrightarrow> IndexByte (x # r) c \<noteq> 0"
  using IndexByte_bounds [of r c] by (auto simp: Let_def)

lemma get_nil: "get h NilPtr name = Inr (VNil, False)"
  by (simp add: get_def)

lemma doOp_loop_nil:
  "doOp_loop h NilPtr path False False v
     = Inr (if only_slashes path then (VDoc NilPtr, True) else (VNil, False), h)"
proof (induction path)
  case Nil
  show ?case by (simp add: doOp_loop.simps only_slashes_def)
next
  case (Cons c r)
  show ?case
  proof (cases "c = CHR ''/''")
    case True
    then show ?thesis using Cons
      by (subst doOp_loop.simps) (simp add: only_slashes_def)
  next
    case False
    then have "IndexByte (c # r) CHR ''/'' \<noteq> 0" by (rule IndexByte_neq_0)
    with False show ?thesis
      by (subst doOp_loop.simps) (simp add: only_slashes_def get_nil Let_def)
  qed
qed

lemma doOp_nil:
  "doOp h NilPtr path False False v
     = Inr (if only_slashes path then (VDoc NilPtr, True) else (VNil, False), h)"
  by (simp add: doOp_def doOp_loop_nil)

text \<open>
  C9, as amended. On a nil receiver, with any arguments (and any fuel that allows one
  call), \<^verbatim>\<open>Len\<close> is 0, \<^verbatim>\<open>Keys\<close> is empty, \<^verbatim>\<open>Has\<close> is false, \<^verbatim>\<open>Nested\<close> and
  \<^verbatim>\<open>Clone\<close> are nil, \<^verbatim>\<open>Delete\<close> returns no error, \<^verbatim>\<open>Freeze\<close>, \<^verbatim>\<open>Iterate\<close>
  and \<^verbatim>\<open>Visit\<close> return without calling the callback, and the typed getters return
  the default; none panics and the store is unchanged. \<^verbatim>\<open>Get\<close> and \<^verbatim>\<open>Fetch\<close>
  return nil and not-found on a path that has a segment; on a path without one (empty,
  or slashes only) they return the nil receiver itself, a typed nil pointer, and
  \<^verbatim>\<open>Fetch\<close> reports it as found.
\<close>

theorem C9_nil_receiver:
  "Len h NilPtr = 0
   \<and> Keys h NilPtr = Inr []
   \<and> Has h NilPtr path = Inr False
   \<and> Nested h NilPtr path = Inr (NilPtr, h)
   \<and> Delete h NilPtr path = Inr (None, h)
   \<and> Freeze (Suc n) h NilPtr = Inr h
   \<and> Clone (Suc n) h NilPtr = Inr (NilPtr, h)
   \<and> Iterate n cb h NilPtr s = Inr (s, h)
   \<and> Visit (Suc n) cv h NilPtr t = Inr (t, h)
   \<and> Get h NilPtr path = Inr (if only_slashes path then VDoc NilPtr else VNil, h)
   \<and> Fetch h NilPtr path
       = Inr (if only_slashes path then (VDoc NilPtr, True) else (VNil, False), h)
   \<and> GetInt X h NilPtr path di = Inr (di, h)
   \<and> GetFloat X h NilPtr path df = Inr (df, h)
   \<and> GetBool h NilPtr path db = Inr (db, h)
   \<and> GetString k X h NilPtr path ds = Inr (ds, h)"
  by (simp add: Len_def Keys_def Has.simps Nested_def Delete.simps Iterate_def Visit_def
      Get_def Fetch_def GetInt_def GetFloat_def GetBool_def GetString_def doOp_nil
      value2int_def value2string_def)

text \<open>
  The claim as stated fails for \<^verbatim>\<open>Fetch\<close> and \<^verbatim>\<open>Get\<close> on the empty path: the
  result is the typed nil pointer, found, not \<^verbatim>\<open>(nil, false)\<close>.
\<close>

theorem C9_Fetch_nil_empty_path:
  "Fetch empty_heap NilPtr [] = Inr ((VDoc NilPtr, True), empty_heap)
   \<and> Fetch empty_heap NilPtr [] \<noteq> Inr ((VNil, False), empty_heap)
   \<and> Get empty_heap NilPtr [] \<noteq> Inr (VNil, empty_heap)"
  by (simp add: Fetch_def Get_def doOp_def doOp_loop.simps)

section \<open>Setting a key of an array\<close>

lemma byte_sub_48:
  fixes x :: nat
  assumes "x < 256"
  shows "(x + 256 - 48) mod 256 = (if x < 48 then x + 208 else x - 48)"
proof (cases "x < 48")
  case True
  then show ?thesis by simp
next
  case False
  then have "x + 256 - 48 = (x - 48) + 256" by simp
  then have "(x + 256 - 48) mod 256 = (x - 48) mod 256" by (simp only: mod_add_self2)
  with False assms show ?thesis by simp
qed

lemma byte_minus_zero:
  "(if (of_char c + 256 - 48) mod 256 > (9::nat) then \<not> is_digit c
    else is_digit c \<and> (of_char c + 256 - 48) mod 256 = (of_char c - 48 :: nat))"
proof -
  have lt: "(of_char c :: nat) < 256" by simp
  show ?thesis
  proof (cases "(of_char c :: nat) < 48")
    case True
    with byte_sub_48 [OF lt] have "(of_char c + 256 - 48) mod 256 = (of_char c + 208 :: nat)"
      by simp
    with True show ?thesis by (simp only: is_digit_def) simp
  next
    case False
    with byte_sub_48 [OF lt] have e: "(of_char c + 256 - 48) mod 256 = (of_char c - 48 :: nat)"
      by simp
    show ?thesis
    proof (cases "(of_char c :: nat) \<le> 57")
      case True
      with False e show ?thesis by (simp only: is_digit_def) simp
    next
      case a: False
      with False e show ?thesis by (simp only: is_digit_def) simp
    qed
  qed
qed

lemma key2Index_loop_spec:
  "0 \<le> n \<Longrightarrow>
   key2Index_loop s n
     = (if list_all is_digit s
        then int (foldl (\<lambda>n c. n * 10 + (of_char c - 48)) (nat n) s) else - 1)"
proof (induction s arbitrary: n)
  case Nil
  then show ?case by simp
next
  case (Cons c s)
  show ?case
  proof (cases "is_digit c")
    case True
    with byte_minus_zero [of c]
    have b: "(of_char c + 256 - 48) mod 256 = (of_char c - 48 :: nat)"
      and le: "\<not> (of_char c + 256 - 48) mod 256 > (9::nat)"
      by (auto split: if_splits)
    have "nat (n * 10 + int (of_char c - 48)) = nat n * 10 + (of_char c - 48)"
      using Cons.prems by (simp add: nat_add_distrib nat_mult_distrib)
    with True b le Cons.prems Cons.IH [of "n * 10 + int (of_char c - 48)"]
    show ?thesis by (simp add: Let_def)
  next
    case False
    with byte_minus_zero [of c] have "(of_char c + 256 - 48) mod 256 > (9::nat)"
      by (auto split: if_splits)
    with False show ?thesis by (simp add: Let_def)
  qed
qed

lemma key2Index_spec: "key2Index s = (if index_key s then int (decimal s) else - 1)"
  by (simp add: key2Index_def index_key_def decimal_def key2Index_loop_spec)

lemma key2Index_nonneg_iff: "0 \<le> key2Index s \<longleftrightarrow> index_key s"
  by (simp add: key2Index_spec)

lemma extend_store_length: "length (extend_store xs i v) = max (length xs) (i + 1)"
  by (auto simp: extend_store_def)

lemma extend_store_nth:
  "j < length (extend_store xs i v) \<Longrightarrow>
   extend_store xs i v ! j = (if j = i then v else if j < length xs then xs ! j else VNil)"
  by (auto simp: extend_store_def nth_append nth_list_update simp del: replicate_Suc)

text \<open>
  C7, as amended. For an array that is not frozen: \<^verbatim>\<open>key2Index\<close> accepts exactly
  the keys of one to nine decimal digits and gives their value; \<^verbatim>\<open>set\<close> with any
  other key returns the invalid-operation error and leaves the store unchanged;
  \<^verbatim>\<open>set\<close> with such a key of value \<open>i\<close> succeeds, the array then has length
  \<open>max len (i + 1)\<close>, holds the value at \<open>i\<close>, its old values at the other old
  positions and nil at the new ones, and nothing else changes.
\<close>

theorem C7_set_on_array:
  "keys (cells h a) = None \<and> 0 \<le> iterCounter (cells h a) \<longrightarrow>
     key2Index key = (if index_key key then int (decimal key) else - 1)
     \<and> (\<not> index_key key \<longrightarrow> set_dj h (Ptr a) key v = Inr (Some InvalidOperation, h))
     \<and> (index_key key \<longrightarrow>
          (\<exists>h'. set_dj h (Ptr a) key v = Inr (None, h')
             \<and> length (vals (cells h' a)) = max (length (vals (cells h a))) (decimal key + 1)
             \<and> vals (cells h' a) ! decimal key = v
             \<and> (\<forall>j < length (vals (cells h' a)). j \<noteq> decimal key \<longrightarrow>
                   vals (cells h' a) ! j
                     = (if j < length (vals (cells h a)) then vals (cells h a) ! j else VNil))
             \<and> keys (cells h' a) = None
             \<and> iterCounter (cells h' a) = iterCounter (cells h a)
             \<and> (\<forall>b. b \<noteq> a \<longrightarrow> cells h' b = cells h b)
             \<and> fresh h' = fresh h))"
proof (intro impI conjI)
  show "key2Index key = (if index_key key then int (decimal key) else - 1)"
    by (rule key2Index_spec)
next
  assume arr: "keys (cells h a) = None \<and> 0 \<le> iterCounter (cells h a)" and "\<not> index_key key"
  then show "set_dj h (Ptr a) key v = Inr (Some InvalidOperation, h)"
    by (simp add: set_dj_def key2Index_spec)
next
  assume arr: "keys (cells h a) = None \<and> 0 \<le> iterCounter (cells h a)" and ik: "index_key key"
  let ?h' = "store h a ((cells h a)\<lparr>vals := extend_store (vals (cells h a)) (decimal key) v\<rparr>)"
  have s: "set_dj h (Ptr a) key v = Inr (None, ?h')"
    using arr ik by (simp add: set_dj_def key2Index_spec Let_def)
  have v: "vals (cells ?h' a) = extend_store (vals (cells h a)) (decimal key) v"
    by (simp add: store_def)
  show "\<exists>h'. set_dj h (Ptr a) key v = Inr (None, h')
             \<and> length (vals (cells h' a)) = max (length (vals (cells h a))) (decimal key + 1)
             \<and> vals (cells h' a) ! decimal key = v
             \<and> (\<forall>j < length (vals (cells h' a)). j \<noteq> decimal key \<longrightarrow>
                   vals (cells h' a) ! j
                     = (if j < length (vals (cells h a)) then vals (cells h a) ! j else VNil))
             \<and> keys (cells h' a) = None
             \<and> iterCounter (cells h' a) = iterCounter (cells h a)
             \<and> (\<forall>b. b \<noteq> a \<longrightarrow> cells h' b = cells h b)
             \<and> fresh h' = fresh h"
  proof (intro exI [of _ ?h'] conjI)
    show "set_dj h (Ptr a) key v = Inr (None, ?h')" by (rule s)
    show "length (vals (cells ?h' a)) = max (length (vals (cells h a))) (decimal key + 1)"
      by (simp only: v extend_store_length)
    show "vals (cells ?h' a) ! decimal key = v"
      by (simp add: v extend_store_nth extend_store_length)
    show "\<forall>j < length (vals (cells ?h' a)). j \<noteq> decimal key \<longrightarrow>
            vals (cells ?h' a) ! j
              = (if j < length (vals (cells h a)) then vals (cells h a) ! j else VNil)"
      by (simp only: v) (simp add: extend_store_nth)
    show "keys (cells ?h' a) = None" using arr by (simp add: store_def)
    show "iterCounter (cells ?h' a) = iterCounter (cells h a)" by (simp add: store_def)
    show "\<forall>b. b \<noteq> a \<longrightarrow> cells ?h' b = cells h b" by (simp add: store_def)
    show "fresh ?h' = fresh h" by (simp add: store_def)
  qed
qed

theorem C7_set_on_array_witness:
  "keys (cells (snd (NewArray empty_heap)) 0) = None
   \<and> 0 \<le> iterCounter (cells (snd (NewArray empty_heap)) 0)
   \<and> index_key ''2'' \<and> decimal ''2'' = 2
   \<and> (\<exists>h'. set_dj (snd (NewArray empty_heap)) (Ptr 0) ''2'' (VInt 7) = Inr (None, h')
          \<and> length (vals (cells h' 0)) = 3 \<and> vals (cells h' 0) ! 2 = VInt 7
          \<and> vals (cells h' 0) ! 0 = VNil \<and> vals (cells h' 0) ! 1 = VNil)"
proof -
  let ?h = "snd (NewArray empty_heap)"
  have pre: "keys (cells ?h 0) = None \<and> 0 \<le> iterCounter (cells ?h 0)"
    by (simp add: empty_heap_def NewArray_def alloc_def)
  have ik: "index_key ''2''" and d: "decimal ''2'' = 2"
    by (simp_all add: index_key_def is_digit_def decimal_def)
  from C7_set_on_array [of ?h 0 "''2''" "VInt 7"] pre ik d
  obtain h' where s: "set_dj ?h (Ptr 0) ''2'' (VInt 7) = Inr (None, h')"
    and l: "length (vals (cells h' 0)) = max (length (vals (cells ?h 0))) 3"
    and v: "vals (cells h' 0) ! 2 = VInt 7"
    and o: "\<forall>j < length (vals (cells h' 0)). j \<noteq> 2 \<longrightarrow>
              vals (cells h' 0) ! j
                = (if j < length (vals (cells ?h 0)) then vals (cells ?h 0) ! j else VNil)"
    by auto
  have e: "vals (cells ?h 0) = []"
    by (simp add: empty_heap_def NewArray_def alloc_def)
  from l e have l3: "length (vals (cells h' 0)) = 3" by simp
  from o l3 e have "vals (cells h' 0) ! 0 = VNil" and "vals (cells h' 0) ! 1 = VNil"
    by auto
  with pre ik d s l3 v show ?thesis by blast
qed

text \<open>
  The claim as stated fails on a frozen array, where a key that is an index gets the
  frozen error and nothing is stored, and for a numeral of ten digits, which is refused
  as a key of an array.
\<close>

theorem C7_frozen_array_or_long_key:
  "(case NewArray empty_heap of
      (a, h1) \<Rightarrow>
        (case Freeze (Suc (Suc 0)) h1 a of
           Inl f \<Rightarrow> False
         | Inr h2 \<Rightarrow>
             IsArray h2 a \<and> key2Index ''0'' = 0
             \<and> set_dj h2 a ''0'' (VInt 1) = Inr (Some FrozenError, h2)
             \<and> Len h2 a = 0))
   \<and> (case NewArray empty_heap of
         (a, h1) \<Rightarrow>
           IsArray h1 a
           \<and> set_dj h1 a ''1234567890'' (VInt 1) = Inr (Some InvalidOperation, h1))"
  by (simp add: eval_defs)

section \<open>Typed getters\<close>

lemma get_total: "index_ok (cells h a) \<Longrightarrow> \<exists>x ok. get h (Ptr a) name = Inr (x, ok)"
  by (auto simp: get_def index_ok_def Let_def split: option.splits)

lemma get_total': "\<forall>a. index_ok (cells h a) \<Longrightarrow> \<exists>x ok. get h level name = Inr (x, ok)"
proof (cases level)
  case NilPtr
  then show ?thesis by (auto simp: get_def)
next
  case (Ptr a)
  assume "\<forall>a. index_ok (cells h a)"
  then have "index_ok (cells h a)" by simp
  with Ptr show ?thesis using get_total [of h a name] by simp
qed

lemma doOp_loop_read:
  assumes "\<forall>a. index_ok (cells h a)"
  shows "\<exists>x ok. doOp_loop h level path False False v = Inr ((x, ok), h)"
proof (induction "length path" arbitrary: path level rule: less_induct)
  case less
  show ?case
  proof (cases "path = []")
    case True
    then show ?thesis by (auto simp: doOp_loop.simps)
  next
    case False
    let ?i = "IndexByte path CHR ''/''"
    have b: "- 1 \<le> ?i \<and> ?i < int (length path)" by (rule IndexByte_bounds)
    consider "?i = 0" | "?i > 0" | "?i < 0" by linarith
    then show ?thesis
    proof cases
      case 1
      have "length (drop 1 path) < length path" using False by simp
      from less [OF this] 1 False show ?thesis
        by (subst doOp_loop.simps) simp
    next
      case 2
      have l: "length (drop (nat ?i + 1) path) < length path" using False by simp
      have ih: "\<exists>x ok. doOp_loop h p (drop (Suc (nat ?i)) path) False False v = Inr ((x, ok), h)" for p
        using less [OF l, of p] by simp
      obtain x ok where g: "get h level (take (nat ?i) path) = Inr (x, ok)"
        using get_total' [OF assms] by blast
      with 2 False show ?thesis
        by (subst doOp_loop.simps) (cases x; cases ok; auto simp: Let_def ih)
    next
      case 3
      obtain x ok where g: "get h level path = Inr (x, ok)"
        using get_total' [OF assms] by blast
      with 3 False show ?thesis
        by (subst doOp_loop.simps) (auto simp: Let_def)
    qed
  qed
qed

text \<open>
  C8, as amended. In a store whose key indexes are in range, a read through
  \<^verbatim>\<open>doOp\<close> returns (it does not panic) and leaves the store unchanged.
  \<^verbatim>\<open>GetInt\<close>, \<^verbatim>\<open>GetFloat\<close> and \<^verbatim>\<open>GetBool\<close> then return a value, never an
  error: the default when the path is not found or no coercion applies, and otherwise
  the coerced value. \<^verbatim>\<open>GetInt\<close> coerces an int, an int64, a float64 (rounded), the
  text of a number (after trimming a final \<^verbatim>\<open>.0\<close>) and the text of a string;
  \<^verbatim>\<open>GetFloat\<close> a float64, the text of a number and the text of a string;
  \<^verbatim>\<open>GetBool\<close> a bool only. \<^verbatim>\<open>GetString\<close> coerces a string, the text of a number,
  an int, an int64 and a time, and returns the default for every other value but one:
  for a \<^verbatim>\<open>DynamicJSON\<close> held by value it returns the compact JSON line of that
  document, and it returns exactly when that serialization does.
\<close>

theorem C8_typed_getters:
  "(\<forall>a. index_ok (cells h a)) \<longrightarrow>
     (\<exists>x ok. doOp h self path False False VNil = Inr ((x, ok), h)
        \<and> GetInt X h self path di = Inr (if ok then or_default (spec_int X x) di else di, h)
        \<and> GetFloat X h self path df = Inr (if ok then or_default (spec_float X x) df else df, h)
        \<and> GetBool h self path db = Inr (if ok then or_default (spec_bool x) db else db, h)
        \<and> GetString n X h self path ds =
            (if \<not> ok then Inr (ds, h)
             else (case x of
                     VStruct ks oks ic xs \<Rightarrow>
                       (case JSONLine n X (snd (alloc h (struct_of ks oks ic xs))) (Ptr (fresh h)) of
                          Inl f \<Rightarrow> Inl f
                        | Inr r \<Rightarrow> Inr (r, h))
                   | _ \<Rightarrow> Inr (or_default (spec_string X x) ds, h))))"
proof
  assume ok: "\<forall>a. index_ok (cells h a)"
  obtain x ok where d: "doOp h self path False False VNil = Inr ((x, ok), h)"
    using doOp_loop_read [OF ok, of self path VNil] by (auto simp: doOp_def)
  have i: "value2int X x di = or_default (spec_int X x) di"
    by (cases x) (auto simp: value2int_def spec_int_def or_default_def split: option.splits)
  have "GetInt X h self path di = Inr (if ok then or_default (spec_int X x) di else di, h)"
    using d i by (simp add: GetInt_def)
  moreover have "GetFloat X h self path df = Inr (if ok then or_default (spec_float X x) df else df, h)"
    using d by (cases x) (auto simp: GetFloat_def spec_float_def or_default_def split: option.splits)
  moreover have "GetBool h self path db = Inr (if ok then or_default (spec_bool x) db else db, h)"
    using d by (cases x) (auto simp: GetBool_def spec_bool_def or_default_def)
  moreover have "GetString n X h self path ds =
            (if \<not> ok then Inr (ds, h)
             else (case x of
                     VStruct ks oks ic xs \<Rightarrow>
                       (case JSONLine n X (snd (alloc h (struct_of ks oks ic xs))) (Ptr (fresh h)) of
                          Inl f \<Rightarrow> Inl f
                        | Inr r \<Rightarrow> Inr (r, h))
                   | _ \<Rightarrow> Inr (or_default (spec_string X x) ds, h)))"
    using d by (cases x) (simp_all add: GetString_def value2string_def spec_string_def or_default_def alloc_def)
  ultimately show "\<exists>x ok. doOp h self path False False VNil = Inr ((x, ok), h)
        \<and> GetInt X h self path di = Inr (if ok then or_default (spec_int X x) di else di, h)
        \<and> GetFloat X h self path df = Inr (if ok then or_default (spec_float X x) df else df, h)
        \<and> GetBool h self path db = Inr (if ok then or_default (spec_bool x) db else db, h)
        \<and> GetString n X h self path ds =
            (if \<not> ok then Inr (ds, h)
             else (case x of
                     VStruct ks oks ic xs \<Rightarrow>
                       (case JSONLine n X (snd (alloc h (struct_of ks oks ic xs))) (Ptr (fresh h)) of
                          Inl f \<Rightarrow> Inl f
                        | Inr r \<Rightarrow> Inr (r, h))
                   | _ \<Rightarrow> Inr (or_default (spec_string X x) ds, h)))"
    using d by blast
qed

lemma getter_doc_index_ok: "\<forall>a. index_ok (cells getter_doc a)"
  by (simp add: getter_doc_def index_ok_def eval_defs)

lemma getter_doc_wf: "heap_wf getter_doc"
  by (auto simp: getter_doc_def heap_wf_def wf_doc_def eval_defs less_Suc_eq split: if_splits)

theorem C8_typed_getters_witness:
  "(\<forall>a. index_ok (cells getter_doc a))
   \<and> GetInt plain_ext getter_doc (Ptr 0) ''n'' 7 = Inr (42, getter_doc)
   \<and> GetInt plain_ext getter_doc (Ptr 0) ''missing'' 7 = Inr (7, getter_doc)
   \<and> GetString (Suc 0) plain_ext getter_doc (Ptr 0) ''n'' ''d'' = Inr (''42.0'', getter_doc)
   \<and> GetBool getter_doc (Ptr 0) ''b'' False = Inr (True, getter_doc)"
  using C8_typed_getters [of getter_doc "Ptr 0" "''n''" plain_ext 7 _ _ "Suc 0"]
    getter_doc_index_ok
  by (simp add: getter_doc_def eval_defs ParseInt_def TrimSuffix_def)

text \<open>
  The claim as stated fails for \<^verbatim>\<open>GetBool\<close>: it has no parsing step, so the string
  \<^verbatim>\<open>true\<close> and the number text \<^verbatim>\<open>42.0\<close> both give the default.
\<close>

theorem C8_GetBool_does_not_parse:
  "GetBool getter_doc (Ptr 0) ''s'' False = Inr (False, getter_doc)
   \<and> GetString (Suc 0) plain_ext getter_doc (Ptr 0) ''s'' [] = Inr (''true'', getter_doc)
   \<and> GetBool getter_doc (Ptr 0) ''n'' True = Inr (True, getter_doc)
   \<and> GetBool getter_doc (Ptr 0) ''n'' False = Inr (False, getter_doc)"
  by (simp add: getter_doc_def eval_defs)

text \<open>
  A \<^verbatim>\<open>DynamicJSON\<close> held by value is read by \<^verbatim>\<open>GetString\<close> as its JSON line, not
  as the default. When that document reaches a cycle, the serializer does not return,
  whatever the fuel, and neither does \<^verbatim>\<open>GetString\<close>. The cyclic document is built
  by two calls of \<^verbatim>\<open>Set\<close> and satisfies the invariant.
\<close>

lemma GetString_struct_value:
  "GetString (Suc 0) plain_ext getter_doc (Ptr 0) ''j'' ''d''
     = Inr (''{'' @ quoted ''k'' @ '':1}'', getter_doc)"
  by (simp add: getter_doc_def eval_defs quoted_def dq_def char_eval)

lemma writeTo_cyclic:
  "writeTo n X (snd (alloc cyclic_doc d)) (Ptr 1) w pretty ident = Inl OutOfFuel"
proof (induction n arbitrary: w ident)
  case 0
  show ?case by simp
next
  case (Suc n)
  show ?case
    by (simp add: cyclic_doc_def alloc_def store_def NewMap_def empty_heap_def IsArray_def Len_def Let_def
          Suc [unfolded cyclic_doc_def alloc_def store_def NewMap_def empty_heap_def, simplified])
qed

lemma GetString_cyclic_struct:
  "GetString n X cyclic_doc (Ptr 0) ''j'' ds = Inl OutOfFuel"
proof (cases n)
  case 0
  show ?thesis unfolding 0
    by (simp add: cyclic_doc_def eval_defs)
next
  case (Suc k)
  have "writeTo k X (snd (alloc cyclic_doc (struct_of (Some [''self'' \<mapsto> 0]) [''self''] 0 [VDoc (Ptr 1)])))
          (Ptr 1) w False [] = Inl OutOfFuel" for w
    by (rule writeTo_cyclic)
  then show ?thesis unfolding Suc
    by (simp add: cyclic_doc_def eval_defs)
qed

lemma cyclic_doc_built:
  "(case Set (snd (NewMap (snd (NewMap empty_heap)))) (Ptr 1) ''self'' (VDoc (Ptr 1)) of
      Inl f \<Rightarrow> Inl f
    | Inr h1 \<Rightarrow> Set h1 (Ptr 0) ''j'' (VStruct (keys (cells h1 1)) (ordKeys (cells h1 1))
                                         (iterCounter (cells h1 1)) (vals (cells h1 1))))
   = Inr cyclic_doc"
  by (simp add: cyclic_doc_def eval_defs fun_upd_twist)

lemma cyclic_doc_wf: "heap_wf cyclic_doc"
  by (auto simp: cyclic_doc_def heap_wf_def wf_doc_def eval_defs)

section \<open>The invariant of a map\<close>

lemma wf_index_ok: "wf_doc d \<Longrightarrow> index_ok d"
  by (auto simp: wf_doc_def index_ok_def split: option.splits)

lemma heap_wf_index_ok: "heap_wf h \<Longrightarrow> \<forall>a. index_ok (cells h a)"
  by (simp add: heap_wf_def wf_index_ok)

lemma wf_mapD:
  assumes "wf_doc d" "keys d = Some m"
  shows "length (ordKeys d) = length (vals d)"
    and "length (vals d) \<le> 2 ^ 32"
    and "\<And>i. i < length (vals d) \<Longrightarrow> vals d ! i \<noteq> VDeleted \<Longrightarrow> m (ordKeys d ! i) = Some i"
    and "\<And>k i. m k = Some i \<Longrightarrow> i < length (vals d) \<and> vals d ! i \<noteq> VDeleted \<and> ordKeys d ! i = k"
  using assms by (auto simp: wf_doc_def)

lemma live_slots_set: "set (live_slots xs) = {i. i < length xs \<and> xs ! i \<noteq> VDeleted}"
  by (auto simp: live_slots_def)

lemma live_slots_distinct: "distinct (live_slots xs)"
  by (simp add: live_slots_def)

lemma live_slots_snoc:
  "live_slots (xs @ [x]) = live_slots xs @ (if x \<noteq> VDeleted then [length xs] else [])"
proof -
  have "filter (\<lambda>i. (xs @ [x]) ! i \<noteq> VDeleted) [0..<length xs]
          = filter (\<lambda>i. xs ! i \<noteq> VDeleted) [0..<length xs]"
    by (rule filter_cong) (auto simp: nth_append)
  then show ?thesis by (simp add: live_slots_def)
qed

lemma live_vals_slots: "live_vals d = map (\<lambda>i. vals d ! i) (live_slots (vals d))"
proof -
  have "filter (\<lambda>x. x \<noteq> VDeleted) xs = map (\<lambda>i. xs ! i) (live_slots xs)" for xs :: "val list"
  proof (induction xs rule: rev_induct)
    case Nil
    show ?case by (simp add: live_slots_def)
  next
    case (snoc x xs)
    have "map (\<lambda>i. (xs @ [x]) ! i) (live_slots xs) = map (\<lambda>i. xs ! i) (live_slots xs)"
      by (rule map_cong) (auto simp: live_slots_set nth_append)
    with snoc show ?case by (simp add: live_slots_snoc)
  qed
  then show ?thesis by (simp add: live_vals_def)
qed



lemma wf_dom: 
  assumes "wf_doc d" "keys d = Some m"
  shows "dom m = set (live_keys d)"
proof
  show "dom m \<subseteq> set (live_keys d)"
  proof
    fix k assume "k \<in> dom m"
    then obtain i where "m k = Some i" by auto
    from wf_mapD(4) [OF assms this] show "k \<in> set (live_keys d)"
      by (auto simp: live_keys_def live_slots_set)
  qed
  show "set (live_keys d) \<subseteq> dom m"
    using wf_mapD(3) [OF assms] by (auto simp: live_keys_def live_slots_set)
qed

lemma wf_live_keys_distinct:
  assumes "wf_doc d" "keys d = Some m"
  shows "distinct (live_keys d)"
proof -
  have "inj_on (\<lambda>i. ordKeys d ! i) (set (live_slots (vals d)))"
  proof (rule inj_onI)
    fix i j assume "i \<in> set (live_slots (vals d))" "j \<in> set (live_slots (vals d))"
      and e: "ordKeys d ! i = ordKeys d ! j"
    then have li: "i < length (vals d)" "vals d ! i \<noteq> VDeleted"
      and lj: "j < length (vals d)" "vals d ! j \<noteq> VDeleted"
      by (simp_all add: live_slots_set)
    have "m (ordKeys d ! i) = Some i" by (rule wf_mapD(3) [OF assms li])
    moreover have "m (ordKeys d ! j) = Some j" by (rule wf_mapD(3) [OF assms lj])
    ultimately have "Some i = Some j" by (simp only: e)
    then show "i = j" by (simp only: option.inject)
  qed
  then show ?thesis by (simp add: live_keys_def distinct_map live_slots_distinct)
qed

lemma wf_card:
  assumes "wf_doc d" "keys d = Some m"
  shows "card (dom m) = length (live_keys d)" and "finite (dom m)"
  using wf_dom [OF assms] wf_live_keys_distinct [OF assms]
  by (simp_all add: distinct_card)

lemma live_keys_length: "length (live_keys d) = length (live_vals d)"
  by (simp add: live_keys_def live_vals_slots)

lemma renumber_notin: "k \<notin> set xs \<Longrightarrow> renumber ks xs j k = ks k"
  by (induction xs arbitrary: ks j) auto

lemma renumber_nth:
  "distinct xs \<Longrightarrow> p < length xs \<Longrightarrow> renumber ks xs j (xs ! p) = Some (j + p)"
proof (induction xs arbitrary: ks j p)
  case Nil
  then show ?case by simp
next
  case (Cons x xs)
  show ?case
  proof (cases p)
    case 0
    with Cons.prems show ?thesis by (simp add: renumber_notin)
  next
    case (Suc q)
    with Cons.prems have "renumber (ks(x \<mapsto> j)) xs (j + 1) (xs ! q) = Some (j + 1 + q)"
      by (intro Cons.IH) auto
    with Suc show ?thesis by simp
  qed
qed

lemma renumber_dom: "dom (renumber ks xs j) = dom ks \<union> set xs"
  by (induction xs arbitrary: ks j) auto

lemma packing_loop_pack_list:
  assumes "length (ordKeys d) = length (vals d)"
  shows "packing_loop d i vs os ks j = pack_list (drop i (zip (ordKeys d) (vals d))) vs os ks j"
proof (induction "length (vals d) - i" arbitrary: i vs os ks j)
  case 0
  then show ?case using assms by (subst packing_loop.simps) simp
next
  case (Suc n)
  then have i: "i < length (vals d)" by simp
  then have dr: "drop i (zip (ordKeys d) (vals d))
      = (ordKeys d ! i, vals d ! i) # drop (Suc i) (zip (ordKeys d) (vals d))"
    using assms by (simp add: Cons_nth_drop_Suc [symmetric])
  have n: "n = length (vals d) - (i + 1)" using Suc.hyps(2) by simp
  show ?case
    using i assms Suc.hyps(1) [OF n]
    by (subst packing_loop.simps) (simp add: dr)
qed

lemma pack_list_result:
  assumes "length vs = K" "length os = K" "K < 2 ^ 32"
    and "j + length (filter (\<lambda>kv. snd kv \<noteq> VDeleted) r) \<le> K"
  shows "pack_list r vs os ks j
    = Inr (take j vs @ map snd (filter (\<lambda>kv. snd kv \<noteq> VDeleted) r)
             @ drop (j + length (filter (\<lambda>kv. snd kv \<noteq> VDeleted) r)) vs,
           take j os @ map fst (filter (\<lambda>kv. snd kv \<noteq> VDeleted) r)
             @ drop (j + length (filter (\<lambda>kv. snd kv \<noteq> VDeleted) r)) os,
           renumber ks (map fst (filter (\<lambda>kv. snd kv \<noteq> VDeleted) r)) j)"
  using assms
proof (induction r arbitrary: vs os ks j)
  case Nil
  then show ?case by simp
next
  case (Cons kv r)
  show ?case
  proof (cases "snd kv = VDeleted")
    case True
    with Cons.prems Cons.IH [of vs os j ks] show ?thesis by simp
  next
    case False
    let ?c = "length (filter (\<lambda>kv. snd kv \<noteq> VDeleted) r)"
    from False Cons.prems have j: "j < K" and jc: "Suc j + ?c \<le> K" by simp_all
    with Cons.prems have m: "(j + 1) mod 2 ^ 32 = Suc j" by simp
    have l1: "length (vs[j := snd kv]) = K" and l2: "length (os[j := fst kv]) = K"
      using Cons.prems by simp_all
    have t1: "take (Suc j) (vs[j := snd kv]) = take j vs @ [snd kv]"
      using j Cons.prems(1) by (simp add: take_Suc_conv_app_nth)
    have t2: "take (Suc j) (os[j := fst kv]) = take j os @ [fst kv]"
      using j Cons.prems(2) by (simp add: take_Suc_conv_app_nth)
    have d1: "drop (Suc j + ?c) (vs[j := snd kv]) = drop (Suc j + ?c) vs" by simp
    have d2: "drop (Suc j + ?c) (os[j := fst kv]) = drop (Suc j + ?c) os" by simp
    have "pack_list (kv # r) vs os ks j
        = pack_list r (vs[j := snd kv]) (os[j := fst kv]) (ks(fst kv \<mapsto> j)) (Suc j)"
      using False j Cons.prems(1,2) m by simp
    also have "\<dots> = Inr (take (Suc j) (vs[j := snd kv]) @ map snd (filter (\<lambda>kv. snd kv \<noteq> VDeleted) r)
             @ drop (Suc j + ?c) (vs[j := snd kv]),
           take (Suc j) (os[j := fst kv]) @ map fst (filter (\<lambda>kv. snd kv \<noteq> VDeleted) r)
             @ drop (Suc j + ?c) (os[j := fst kv]),
           renumber (ks(fst kv \<mapsto> j)) (map fst (filter (\<lambda>kv. snd kv \<noteq> VDeleted) r)) (Suc j))"
      by (rule Cons.IH [OF l1 l2 Cons.prems(3) jc])
    finally show ?thesis using False by (simp add: t1 t2 d1 d2)
  qed
qed

lemma live_zip:
  assumes "length oks = length xs"
  shows "filter (\<lambda>kv. snd kv \<noteq> VDeleted) (zip oks xs)
           = map (\<lambda>i. (oks ! i, xs ! i)) (live_slots xs)"
  using assms
proof (induction xs arbitrary: oks rule: rev_induct)
  case Nil
  then show ?case by (simp add: live_slots_def)
next
  case (snoc x xs)
  from snoc.prems obtain k ks where o: "oks = ks @ [k]" and l: "length ks = length xs"
    by (cases oks rule: rev_cases) auto
  have "map (\<lambda>i. ((ks @ [k]) ! i, (xs @ [x]) ! i)) (live_slots xs)
          = map (\<lambda>i. (ks ! i, xs ! i)) (live_slots xs)"
    by (rule map_cong) (auto simp: live_slots_set nth_append l)
  with snoc.IH [OF l] l show ?case
    by (simp add: o live_slots_snoc nth_append)
qed

lemma packing_loop_wf:
  assumes w: "wf_doc d" and k: "keys d = Some m" and c: "card (dom m) * 3 < length (vals d)"
  shows "packing_loop d 0 (replicate (card (dom m)) VNil) (replicate (card (dom m)) []) m 0
           = Inr (live_vals d, live_keys d, renumber m (live_keys d) 0)"
proof -
  let ?K = "card (dom m)"
  let ?L = "filter (\<lambda>kv. snd kv \<noteq> VDeleted) (zip (ordKeys d) (vals d))"
  have len: "length (ordKeys d) = length (vals d)" by (rule wf_mapD(1) [OF w k])
  have L: "?L = map (\<lambda>i. (ordKeys d ! i, vals d ! i)) (live_slots (vals d))"
    by (rule live_zip [OF len])
  have Lk: "map fst ?L = live_keys d" by (simp add: L live_keys_def comp_def)
  have Lv: "map snd ?L = live_vals d" by (simp add: L live_vals_slots comp_def)
  have K: "?K = length ?L"
    using wf_card(1) [OF w k] Lk by (metis length_map)
  have "length (vals d) \<le> 2 ^ 32" by (rule wf_mapD(2) [OF w k])
  with c have K32: "?K < 2 ^ 32" by simp
  have "packing_loop d 0 (replicate ?K VNil) (replicate ?K []) m 0
      = pack_list (drop 0 (zip (ordKeys d) (vals d))) (replicate ?K VNil) (replicate ?K []) m 0"
    by (rule packing_loop_pack_list [OF len])
  also have "\<dots> = pack_list (zip (ordKeys d) (vals d)) (replicate ?K VNil) (replicate ?K []) m 0"
    by simp
  also have "\<dots> = Inr (take 0 (replicate ?K VNil) @ map snd ?L @ drop (0 + length ?L) (replicate ?K VNil),
           take 0 (replicate ?K []) @ map fst ?L @ drop (0 + length ?L) (replicate ?K []),
           renumber m (map fst ?L) 0)"
  proof (rule pack_list_result [where K = ?K])
    show "length (replicate ?K VNil) = ?K" by simp
    show "length (replicate ?K ([] :: string)) = ?K" by simp
    show "?K < 2 ^ 32" by (rule K32)
    show "0 + length ?L \<le> ?K" using K by simp
  qed
  also have "\<dots> = Inr (live_vals d, live_keys d, renumber m (live_keys d) 0)"
    by (simp add: K [symmetric] Lk Lv)
  finally show ?thesis .
qed

lemma packing_run:
  assumes "wf_doc (cells h a)" "keys (cells h a) = Some m" "iterCounter (cells h a) = 0"
    and "128 \<le> length (vals (cells h a))" "card (dom m) * 3 < length (vals (cells h a))"
  shows "packing h (Ptr a) = Inr (store h a (packed (cells h a) m))"
  using assms packing_loop_wf [of "cells h a" m]
  by (simp add: packing_def packed_def Let_def)

lemma packing_skip:
  assumes "keys (cells h a) = Some m"
    and "\<not> (iterCounter (cells h a) = 0 \<and> 128 \<le> length (vals (cells h a))
            \<and> card (dom m) * 3 < length (vals (cells h a)))"
  shows "packing h (Ptr a) = Inr h"
  using assms by (auto simp: packing_def Let_def)

lemma live_vals_nth_live: "p < length (live_vals d) \<Longrightarrow> live_vals d ! p \<noteq> VDeleted"
  using nth_mem [of p "live_vals d"] by (simp add: live_vals_def)

lemma live_vals_all_live: "live_slots (live_vals d) = [0..<length (live_vals d)]"
proof -
  have "\<forall>i \<in> set [0..<length (live_vals d)]. live_vals d ! i \<noteq> VDeleted"
    using live_vals_nth_live [of _ d] by simp
  then have "filter (\<lambda>i. live_vals d ! i \<noteq> VDeleted) [0..<length (live_vals d)]
      = [0..<length (live_vals d)]"
    by (rule filter_True)
  then show ?thesis by (simp only: live_slots_def)
qed

lemma live_keys_packed: "live_keys (packed d m) = live_keys d"
proof -
  have v: "vals (packed d m) = live_vals d" and o: "ordKeys (packed d m) = live_keys d"
    by (simp_all add: packed_def)
  have "live_keys (packed d m)
      = map (\<lambda>i. ordKeys (packed d m) ! i) (live_slots (vals (packed d m)))"
    by (simp only: live_keys_def)
  also have "\<dots> = map (\<lambda>i. live_keys d ! i) [0..<length (live_vals d)]"
    by (simp only: v o live_vals_all_live)
  also have "\<dots> = live_keys d"
    by (simp add: live_keys_length [symmetric] map_nth)
  finally show ?thesis .
qed

lemma wf_packed:
  assumes w: "wf_doc d" and k: "keys d = Some m"
  shows "wf_doc (packed d m)"
proof -
  let ?L = "live_keys d"
  let ?m = "renumber m ?L 0"
  have dist: "distinct ?L" by (rule wf_live_keys_distinct [OF w k])
  have dom: "dom m = set ?L" by (rule wf_dom [OF w k])
  have len: "length ?L = length (live_vals d)" by (rule live_keys_length)
  have le: "length (live_vals d) \<le> 2 ^ 32"
  proof -
    have "length (live_vals d) \<le> length (vals d)" by (simp add: live_vals_def)
    with wf_mapD(2) [OF w k] show ?thesis by simp
  qed
  have a: "\<forall>p < length (live_vals d). live_vals d ! p \<noteq> VDeleted \<longrightarrow> ?m (?L ! p) = Some p"
    using renumber_nth [OF dist, of _ m 0] len by simp
  have b: "\<forall>x p. ?m x = Some p \<longrightarrow>
             p < length (live_vals d) \<and> live_vals d ! p \<noteq> VDeleted \<and> ?L ! p = x"
  proof (intro allI impI)
    fix x p assume xp: "?m x = Some p"
    have "x \<in> set ?L"
    proof (rule ccontr)
      assume n: "x \<notin> set ?L"
      then have "?m x = m x" by (rule renumber_notin)
      with xp have "x \<in> dom m" by auto
      with dom n show False by simp
    qed
    then obtain q where q: "q < length ?L" "?L ! q = x" by (auto simp: in_set_conv_nth)
    from renumber_nth [OF dist q(1), of m 0] q(2) xp have "p = q" by simp
    with q len live_vals_nth_live [of q d]
    show "p < length (live_vals d) \<and> live_vals d ! p \<noteq> VDeleted \<and> ?L ! p = x" by simp
  qed
  from a b len le show ?thesis by (simp add: wf_doc_def packed_def)
qed


lemma live_slots_update_dead:
  assumes "i < length xs"
  shows "live_slots (xs[i := VDeleted]) = filter (\<lambda>j. j \<noteq> i) (live_slots xs)"
proof -
  have "filter (\<lambda>j. xs[i := VDeleted] ! j \<noteq> VDeleted) [0..<length xs]
      = filter (\<lambda>j. j \<noteq> i \<and> xs ! j \<noteq> VDeleted) [0..<length xs]"
    using assms by (intro filter_cong refl) (auto simp: nth_list_update)
  then show ?thesis by (simp add: live_slots_def conj_commute)
qed

lemma wf_ins:
  assumes w: "wf_doc d" and k: "keys d = Some m" and n: "m x = None" and v: "v \<noteq> VDeleted"
    and r: "length (vals d) < 2 ^ 32"
  shows "wf_doc (ins d m x v)"
proof -
  note D = wf_mapD [OF w k]
  have a: "\<forall>i < length (vals d @ [v]). (vals d @ [v]) ! i \<noteq> VDeleted \<longrightarrow>
             (m(x \<mapsto> length (vals d))) ((ordKeys d @ [x]) ! i) = Some i"
  proof (intro allI impI)
    fix i assume i: "i < length (vals d @ [v])" and l: "(vals d @ [v]) ! i \<noteq> VDeleted"
    show "(m(x \<mapsto> length (vals d))) ((ordKeys d @ [x]) ! i) = Some i"
    proof (cases "i < length (vals d)")
      case True
      with l have "vals d ! i \<noteq> VDeleted" by (simp add: nth_append)
      from D(3) [OF True this] have mi: "m (ordKeys d ! i) = Some i" .
      with n have "ordKeys d ! i \<noteq> x" by auto
      with True mi D(1) show ?thesis by (simp add: nth_append)
    next
      case False
      with i have "i = length (vals d)" by simp
      with D(1) show ?thesis by (simp add: nth_append)
    qed
  qed
  have b: "\<forall>y i. (m(x \<mapsto> length (vals d))) y = Some i \<longrightarrow>
             i < length (vals d @ [v]) \<and> (vals d @ [v]) ! i \<noteq> VDeleted
             \<and> (ordKeys d @ [x]) ! i = y"
  proof (intro allI impI)
    fix y i assume yi: "(m(x \<mapsto> length (vals d))) y = Some i"
    show "i < length (vals d @ [v]) \<and> (vals d @ [v]) ! i \<noteq> VDeleted \<and> (ordKeys d @ [x]) ! i = y"
    proof (cases "y = x")
      case True
      with yi have "i = length (vals d)" by simp
      with True v D(1) show ?thesis by (simp add: nth_append)
    next
      case False
      with yi have "m y = Some i" by simp
      from D(4) [OF this] D(1) show ?thesis by (simp add: nth_append)
    qed
  qed
  from a b D(1) r show ?thesis by (simp add: wf_doc_def ins_def)
qed


lemma upd_same_keys:
  assumes w: "wf_doc d" and k: "keys d = Some m" and s: "m x = Some i"
  shows "ordKeys (upd d i x v) = ordKeys d"
  using wf_mapD(4) [OF w k s] wf_mapD(1) [OF w k]
  by (simp add: upd_def list_update_same_conv)

lemma wf_upd:
  assumes w: "wf_doc d" and k: "keys d = Some m" and s: "m x = Some i" and v: "v \<noteq> VDeleted"
  shows "wf_doc (upd d i x v)"
proof -
  note D = wf_mapD [OF w k]
  have o: "(ordKeys d)[i := x] = ordKeys d"
    using upd_same_keys [OF w k s, of v] by (simp add: upd_def)
  have i: "i < length (vals d)" using D(4) [OF s] by simp
  have a: "\<forall>j < length (vals d). (vals d)[i := v] ! j \<noteq> VDeleted \<longrightarrow> m (ordKeys d ! j) = Some j"
  proof (intro allI impI)
    fix j assume j: "j < length (vals d)" and l: "(vals d)[i := v] ! j \<noteq> VDeleted"
    show "m (ordKeys d ! j) = Some j"
    proof (cases "j = i")
      case True
      with D(4) [OF s] s show ?thesis by simp
    next
      case False
      with l j have "vals d ! j \<noteq> VDeleted" by simp
      from D(3) [OF j this] show ?thesis .
    qed
  qed
  have b: "\<forall>y j. m y = Some j \<longrightarrow>
             j < length (vals d) \<and> (vals d)[i := v] ! j \<noteq> VDeleted \<and> ordKeys d ! j = y"
  proof (intro allI impI)
    fix y j assume "m y = Some j"
    from D(4) [OF this] v show "j < length (vals d) \<and> (vals d)[i := v] ! j \<noteq> VDeleted \<and> ordKeys d ! j = y"
      by (cases "j = i") simp_all
  qed
  from a b D(1,2) k show ?thesis by (simp add: wf_doc_def upd_def o)
qed


lemma wf_tomb:
  assumes w: "wf_doc d" and k: "keys d = Some m" and s: "m x = Some i"
  shows "wf_doc (tomb d m x i)"
proof -
  note D = wf_mapD [OF w k]
  have a: "\<forall>j < length (vals d). (vals d)[i := VDeleted] ! j \<noteq> VDeleted \<longrightarrow>
             (m(x := None)) (ordKeys d ! j) = Some j"
  proof (intro allI impI)
    fix j assume j: "j < length (vals d)" and l: "(vals d)[i := VDeleted] ! j \<noteq> VDeleted"
    then have ji: "j \<noteq> i" by (auto simp: nth_list_update)
    with l j have "vals d ! j \<noteq> VDeleted" by simp
    from D(3) [OF j this] have mj: "m (ordKeys d ! j) = Some j" .
    with s ji have "ordKeys d ! j \<noteq> x" by auto
    with mj show "(m(x := None)) (ordKeys d ! j) = Some j" by simp
  qed
  have b: "\<forall>y j. (m(x := None)) y = Some j \<longrightarrow>
             j < length (vals d) \<and> (vals d)[i := VDeleted] ! j \<noteq> VDeleted \<and> ordKeys d ! j = y"
  proof (intro allI impI)
    fix y j assume yj: "(m(x := None)) y = Some j"
    then have yx: "y \<noteq> x" and my: "m y = Some j" by (auto split: if_splits)
    from D(4) [OF my] D(4) [OF s] yx have "j \<noteq> i" by auto
    with D(4) [OF my] show "j < length (vals d) \<and> (vals d)[i := VDeleted] ! j \<noteq> VDeleted \<and> ordKeys d ! j = y"
      by simp
  qed
  from a b D(1,2) show ?thesis by (simp add: wf_doc_def tomb_def)
qed

lemma live_keys_tomb:
  assumes w: "wf_doc d" and k: "keys d = Some m" and s: "m x = Some i"
  shows "live_keys (tomb d m x i) = filter (\<lambda>y. y \<noteq> x) (live_keys d)"
proof -
  note D = wf_mapD [OF w k]
  have i: "i < length (vals d)" using D(4) [OF s] by simp
  have "filter (\<lambda>j. j \<noteq> i) (live_slots (vals d))
      = filter (\<lambda>j. ordKeys d ! j \<noteq> x) (live_slots (vals d))"
  proof (intro filter_cong refl)
    fix j assume "j \<in> set (live_slots (vals d))"
    then have j: "j < length (vals d)" "vals d ! j \<noteq> VDeleted" by (simp_all add: live_slots_set)
    from D(3) [OF j] have mj: "m (ordKeys d ! j) = Some j" .
    show "(j \<noteq> i) = (ordKeys d ! j \<noteq> x)"
    proof
      assume "j \<noteq> i" with mj s show "ordKeys d ! j \<noteq> x" by auto
    next
      assume "ordKeys d ! j \<noteq> x" with D(4) [OF s] show "j \<noteq> i" by auto
    qed
  qed
  then show ?thesis
    by (simp add: live_keys_def tomb_def live_slots_update_dead [OF i] filter_map comp_def)
qed

lemma IndexByte_absent: "c \<notin> set s \<Longrightarrow> IndexByte s c = - 1"
  by (induction s) (auto simp: Let_def)

lemma IndexByte_present: "c \<in> set s \<Longrightarrow> 0 \<le> IndexByte s c"
  by (induction s) (auto simp: Let_def)

lemma convertToDJ_live: "convertToDJ v \<noteq> VDeleted"
  by (cases v) (simp_all add: convertToDJ_def)

lemma cells_store: "cells (store h a d) b = (if b = a then d else cells h b)"
  by (simp add: store_def)

lemma fresh_store: "fresh (store h a d) = fresh h"
  by (simp add: store_def)

lemma store_same: "store h a (cells h a) = h"
  by (simp add: store_def)

lemma set_dj_map:
  assumes w: "wf_doc (cells h a)" and k: "keys (cells h a) = Some m"
    and f: "0 \<le> iterCounter (cells h a)" and r: "length (vals (cells h a)) < 2 ^ 32"
  shows "set_dj h (Ptr a) x v
    = Inr (None, store h a (case m x of Some i \<Rightarrow> upd (cells h a) i x v
                             | None \<Rightarrow> ins (cells h a) m x v))"
proof (cases "m x")
  case None
  with k f r show ?thesis by (simp add: set_dj_def Let_def ins_def)
next
  case (Some i)
  from wf_mapD(4) [OF w k Some] wf_mapD(1) [OF w k]
  have "i < length (vals (cells h a))" "i < length (ordKeys (cells h a))" by simp_all
  with k f Some show ?thesis by (simp add: set_dj_def Let_def upd_def)
qed



lemma wf_set_node:
  assumes "wf_doc d" "keys d = Some m" "v \<noteq> VDeleted" "length (vals d) < 2 ^ 32"
  shows "wf_doc (set_node d m x v)"
  using assms by (auto simp: set_node_def wf_ins wf_upd split: option.splits)


lemma iterCounter_set_node: "iterCounter (set_node d m x v) = iterCounter d"
  by (auto simp: set_node_def upd_def ins_def split: option.splits)



lemma packing_map:
  assumes w: "wf_doc (cells h a)" and k: "keys (cells h a) = Some m"
  shows "packing h (Ptr a)
    = Inr (if iterCounter (cells h a) = 0 \<and> 128 \<le> length (vals (cells h a))
              \<and> card (dom m) * 3 < length (vals (cells h a))
           then store h a (packed (cells h a) m) else h)"
proof (cases "iterCounter (cells h a) = 0 \<and> 128 \<le> length (vals (cells h a))
              \<and> card (dom m) * 3 < length (vals (cells h a))")
  case True
  then show ?thesis using packing_run [OF w k] by simp
next
  case False
  have "packing h (Ptr a) = Inr h" by (rule packing_skip [OF k False])
  then show ?thesis by (simp only: if_not_P [OF False])
qed

lemma packed_keys_ex: "\<exists>y. keys (packed d m) = Some y"
  by (simp add: packed_def)

lemma packed_fields:
  "iterCounter (packed d m) = iterCounter d"
  "keys (packed d m) \<noteq> None"
  "length (vals (packed d m)) \<le> length (vals d)"
  by (simp_all add: packed_def live_vals_def)

lemma tomb_fields:
  "iterCounter (tomb d m x i) = iterCounter d"
  "keys (tomb d m x i) = Some (m(x := None))"
  "length (vals (tomb d m x i)) = length (vals d)"
  by (simp_all add: tomb_def)

lemma Delete_map_single:
  assumes w: "wf_doc (cells h a)" and k: "keys (cells h a) = Some m"
    and f: "0 \<le> iterCounter (cells h a)" and x: "CHR ''/'' \<notin> set x"
  shows "\<exists>h'. Delete h (Ptr a) x = Inr (None, h')
    \<and> wf_doc (cells h' a) \<and> keys (cells h' a) \<noteq> None
    \<and> iterCounter (cells h' a) = iterCounter (cells h a)
    \<and> live_keys (cells h' a) = filter (\<lambda>y. y \<noteq> x) (live_keys (cells h a))
    \<and> length (vals (cells h' a)) \<le> length (vals (cells h a))
    \<and> (\<forall>b. b \<noteq> a \<longrightarrow> cells h' b = cells h b) \<and> fresh h' = fresh h"
proof (cases "m x")
  case None
  then have "x \<notin> dom m" by auto
  then have "x \<notin> set (live_keys (cells h a))" using wf_dom [OF w k] by simp
  then have "filter (\<lambda>y. y \<noteq> x) (live_keys (cells h a)) = live_keys (cells h a)"
    by (simp add: filter_id_conv) auto
  moreover have "Delete h (Ptr a) x = Inr (None, h)"
    using None k f IndexByte_absent [OF x] by (subst Delete.simps) (simp add: Let_def)
  ultimately show ?thesis using w k by simp
next
  case (Some i)
  let ?t = "tomb (cells h a) m x i"
  let ?h1 = "store h a ?t"
  have i: "i < length (vals (cells h a))" using wf_mapD(4) [OF w k Some] by simp
  have wt: "wf_doc ?t" by (rule wf_tomb [OF w k Some])
  have lt: "live_keys ?t = filter (\<lambda>y. y \<noteq> x) (live_keys (cells h a))"
    by (rule live_keys_tomb [OF w k Some])
  have c1: "cells ?h1 a = ?t" by (simp add: cells_store)
  have w1: "wf_doc (cells ?h1 a)" using wt by (simp only: c1)
  have k1: "keys (cells ?h1 a) = Some (m(x := None))" by (simp only: c1 tomb_fields)
  let ?c = "iterCounter (cells ?h1 a) = 0 \<and> 128 \<le> length (vals (cells ?h1 a))
              \<and> card (dom (m(x := None))) * 3 < length (vals (cells ?h1 a))"
  let ?h2 = "if ?c then store ?h1 a (packed (cells ?h1 a) (m(x := None))) else ?h1"
  have p: "packing ?h1 (Ptr a) = Inr ?h2" by (rule packing_map [OF w1 k1])
  have d: "Delete h (Ptr a) x = Inr (None, ?h2)"
    using Some k f i IndexByte_absent [OF x] p
    by (subst Delete.simps) (simp add: Let_def tomb_def)
  show ?thesis
  proof (cases ?c)
    case True
    have "?h2 = store ?h1 a (packed (cells ?h1 a) (m(x := None)))" using True by (rule if_P)
    then have h2: "?h2 = store ?h1 a (packed ?t (m(x := None)))" by (simp only: c1)
    have "wf_doc (packed ?t (m(x := None)))" using wf_packed [OF wt] by (simp add: tomb_fields)
    moreover have "live_keys (packed ?t (m(x := None))) = live_keys ?t"
      by (rule live_keys_packed)
    moreover have "length (vals (packed ?t (m(x := None)))) \<le> length (vals (cells h a))"
      using packed_fields(3) [of ?t] by (simp add: tomb_fields)
    ultimately show ?thesis using d lt
      by (simp only: h2) (simp add: cells_store fresh_store packed_fields packed_keys_ex tomb_fields)
  next
    case False
    have h2: "?h2 = ?h1" using False by (rule if_not_P)
    show ?thesis using d wt lt
      by (simp only: h2) (simp add: cells_store fresh_store tomb_fields)
  qed
qed




lemma live_slots_replicate_dead: "live_slots (replicate n VDeleted) = []"
  by (simp add: live_slots_def)

section \<open>The operations keep the invariant\<close>

text \<open>
  The invariant \<open>heap_wf\<close> holds of the empty store and is kept by the constructors,
  by \<^verbatim>\<open>set\<close>, \<^verbatim>\<open>SetI\<close>, \<^verbatim>\<open>Append\<close>, \<^verbatim>\<open>Set\<close>, \<^verbatim>\<open>Delete\<close>, \<^verbatim>\<open>Map\<close>,
  \<^verbatim>\<open>packing\<close> and \<^verbatim>\<open>Freeze\<close>, as long as no map runs out of uint32 slot
  indexes: a call that may add \<open>k\<close> slots to a map asks for \<open>room h k\<close>. A path of
  \<open>n\<close> bytes adds at most \<open>n\<close> slots.
\<close>

lemma room_mono: "room h k \<Longrightarrow> j \<le> k \<Longrightarrow> room h j"
  by (auto simp: room_def)

lemma heap_wf_empty: "heap_wf empty_heap" and room_empty: "room empty_heap k"
  by (simp_all add: heap_wf_def room_def wf_doc_def empty_heap_def)

lemma heap_wf_store: "heap_wf h \<Longrightarrow> wf_doc d \<Longrightarrow> heap_wf (store h a d)"
  by (simp add: heap_wf_def cells_store)

lemma alloc_preserves:
  assumes "heap_wf h" "wf_doc d"
  shows "heap_wf (snd (alloc h d))"
  using assms by (simp add: heap_wf_def alloc_def)

lemma NewMap_preserves: "heap_wf h \<Longrightarrow> heap_wf (snd (NewMap h))"
  by (simp add: NewMap_def alloc_preserves wf_doc_def)

lemma NewArray_preserves: "heap_wf h \<Longrightarrow> heap_wf (snd (NewArray h))"
  by (simp add: NewArray_def alloc_preserves wf_doc_def)

lemma NewMap_room: "room h k \<Longrightarrow> k \<le> 2 ^ 32 \<Longrightarrow> room (snd (NewMap h)) k"
  by (simp add: NewMap_def alloc_def room_def)

lemma NewArray_room: "room h k \<Longrightarrow> room (snd (NewArray h)) k"
  by (simp add: NewArray_def alloc_def room_def)

lemma wf_doc_array: "keys d = None \<Longrightarrow> wf_doc d"
  by (simp add: wf_doc_def)

lemma wf_doc_counter: "wf_doc (d\<lparr>iterCounter := c\<rparr>) = wf_doc d"
  by (cases "keys d") (simp_all add: wf_doc_def)

lemma set_node_length: "length (vals (set_node d m x v)) \<le> Suc (length (vals d))"
  by (simp add: set_node_def upd_def ins_def split: option.splits)

lemma set_dj_preserves:
  assumes w: "heap_wf h" and r: "room h (Suc k)" and v: "v \<noteq> VDeleted"
  shows "\<exists>e h'. set_dj h (Ptr a) x v = Inr (e, h') \<and> heap_wf h' \<and> room h' k \<and> fresh h' = fresh h"
proof -
  have r0: "room h k" using r by (rule room_mono) simp
  show ?thesis
  proof (cases "iterCounter (cells h a) < 0")
    case True
    then have "set_dj h (Ptr a) x v = Inr (Some FrozenError, h)" by (rule set_dj_frozen)
    with w r0 show ?thesis by simp
  next
    case False
    then have f: "0 \<le> iterCounter (cells h a)" by simp
    show ?thesis
    proof (cases "keys (cells h a)")
      case None
      show ?thesis
      proof (cases "key2Index x < 0")
        case True
        with None f have "set_dj h (Ptr a) x v = Inr (Some InvalidOperation, h)"
          by (simp add: set_dj_def)
        with w r0 show ?thesis by simp
      next
        case k: False
        let ?d = "(cells h a)\<lparr>vals := extend_store (vals (cells h a)) (nat (key2Index x)) v\<rparr>"
        have s: "set_dj h (Ptr a) x v = Inr (None, store h a ?d)"
          using None f k by (simp add: set_dj_def Let_def)
        have "keys ?d = None" using None by simp
        then have "wf_doc ?d" by (rule wf_doc_array)
        then have 1: "heap_wf (store h a ?d)" by (rule heap_wf_store [OF w])
        have 2: "room (store h a ?d) k" using r0 None by (simp add: room_def cells_store)
        from s 1 2 show ?thesis by (simp add: fresh_store)
      qed
    next
      case (Some m)
      have wa: "wf_doc (cells h a)" using w by (simp add: heap_wf_def)
      have l: "length (vals (cells h a)) + Suc k \<le> 2 ^ 32" using r Some by (simp add: room_def)
      then have l32: "length (vals (cells h a)) < 2 ^ 32" by simp
      let ?d = "set_node (cells h a) m x v"
      have s: "set_dj h (Ptr a) x v = Inr (None, store h a ?d)"
        using set_dj_map [OF wa Some f l32] by (simp add: set_node_def)
      have "wf_doc ?d" by (rule wf_set_node [OF wa Some v l32])
      then have 1: "heap_wf (store h a ?d)" by (rule heap_wf_store [OF w])
      have "length (vals ?d) + k \<le> 2 ^ 32" using set_node_length [of "cells h a" m x v] l by simp
      then have 2: "room (store h a ?d) k" using r0 by (simp add: room_def cells_store)
      from s 1 2 show ?thesis by (simp add: fresh_store)
    qed
  qed
qed

lemma SetI_preserves:
  assumes w: "heap_wf h" and r: "room h (Suc k)" and v: "v \<noteq> VDeleted"
  shows "\<exists>e h'. SetI h (Ptr a) i v = Inr (e, h') \<and> heap_wf h' \<and> room h' k"
proof (cases "0 \<le> iterCounter (cells h a) \<and> keys (cells h a) = None \<and> 0 \<le> i")
  case True
  let ?d = "(cells h a)\<lparr>vals := extend_store (vals (cells h a)) (nat i) v\<rparr>"
  have s: "SetI h (Ptr a) i v = Inr (None, store h a ?d)"
    using True by (simp add: SetI_def IsArray_def Let_def)
  have "keys ?d = None" using True by simp
  then have "wf_doc ?d" by (rule wf_doc_array)
  then have 1: "heap_wf (store h a ?d)" by (rule heap_wf_store [OF w])
  have "room h k" using r by (rule room_mono) simp
  then have 2: "room (store h a ?d) k" using True by (simp add: room_def cells_store)
  from s 1 2 show ?thesis by simp
next
  case False
  have r0: "room h k" using r by (rule room_mono) simp
  from False consider "iterCounter (cells h a) < 0"
    | "0 \<le> iterCounter (cells h a)" "keys (cells h a) = None" "i < 0"
    | "0 \<le> iterCounter (cells h a)" "keys (cells h a) \<noteq> None" by fastforce
  then show ?thesis
  proof cases
    case 1
    then show ?thesis using w r0 by (simp add: SetI_frozen)
  next
    case 2
    then show ?thesis using w r0 by (simp add: SetI_def IsArray_def Let_def)
  next
    case 3
    then have "SetI h (Ptr a) i v = set_dj h (Ptr a) (Itoa i) v"
      by (cases "keys (cells h a)") (simp_all add: SetI_def IsArray_def Let_def)
    with set_dj_preserves [OF w r v, of a "Itoa i"] show ?thesis by auto
  qed
qed

lemma Append_preserves: "heap_wf h \<Longrightarrow> heap_wf (Append h p v)"
  by (cases p) (auto simp: Append_def IsArray_def heap_wf_def cells_store wf_doc_array)

lemma packing_preserves:
  assumes w: "heap_wf h"
  shows "\<exists>h'. packing h p = Inr h' \<and> heap_wf h'"
proof (cases p)
  case NilPtr
  with w show ?thesis by (simp add: packing_def)
next
  case (Ptr a)
  show ?thesis
  proof (cases "keys (cells h a)")
    case None
    with Ptr w show ?thesis by (simp add: packing_def Let_def)
  next
    case (Some m)
    have wa: "wf_doc (cells h a)" using w by (simp add: heap_wf_def)
    have "heap_wf (store h a (packed (cells h a) m))"
      by (rule heap_wf_store [OF w wf_packed [OF wa Some]])
    with packing_map [OF wa Some] w Ptr show ?thesis by simp
  qed
qed

lemma createLevel_preserves:
  assumes w: "heap_wf h" and r: "room h k" and k: "k \<le> 2 ^ 32"
  shows "heap_wf (snd (createLevelFromNextPath h path)) \<and> room (snd (createLevelFromNextPath h path)) k
     \<and> fst (createLevelFromNextPath h path) = Ptr (fresh h)"
proof -
  have "createLevelFromNextPath h path = NewArray h \<or> createLevelFromNextPath h path = NewMap h"
    by (simp add: createLevelFromNextPath_def Let_def)
  then show ?thesis
  proof
    assume e: "createLevelFromNextPath h path = NewArray h"
    show ?thesis unfolding e
      using NewArray_preserves [OF w] NewArray_room [OF r] by (simp add: NewArray_def alloc_def)
  next
    assume e: "createLevelFromNextPath h path = NewMap h"
    show ?thesis unfolding e
      using NewMap_preserves [OF w] NewMap_room [OF r k] by (simp add: NewMap_def alloc_def)
  qed
qed

lemma doOp_loop_preserves:
  assumes v: "v \<noteq> VDeleted"
  shows "heap_wf h \<Longrightarrow> room h (length path) \<Longrightarrow> length path \<le> 2 ^ 32
     \<Longrightarrow> doOp_loop h level path ac sv v = Inr (r, h') \<Longrightarrow> heap_wf h'"
proof (induction "length path" arbitrary: path level h rule: less_induct)
  case less
  note w = less.prems(1) and rm = less.prems(2) and lp = less.prems(3) and run = less.prems(4)
  show ?case
  proof (cases "path = []")
    case True
    with run w show ?thesis by (simp add: doOp_loop.simps)
  next
    case False
    let ?i = "IndexByte path CHR ''/''"
    have b: "- 1 \<le> ?i \<and> ?i < int (length path)" by (rule IndexByte_bounds)
    obtain k where lk: "length path = Suc k" using False by (cases path) auto
    consider "?i = 0" | "?i > 0" | "?i < 0" by linarith
    then show ?thesis
    proof cases
      case 1
      have l: "length (drop 1 path) < length path" using False by simp
      have r1: "room h (length (drop 1 path))" using rm by (rule room_mono) simp
      have "doOp_loop h level (drop 1 path) ac sv v = Inr (r, h')"
        using run 1 False by (subst (asm) doOp_loop.simps) simp
      from less.hyps [OF l w r1 _ this] lp show ?thesis by simp
    next
      case 2
      let ?name = "take (nat ?i) path" and ?p1 = "drop (Suc (nat ?i)) path"
      have l: "length ?p1 < length path" using False by simp
      have l1: "length ?p1 \<le> k" using lk by simp
      have r1: "room h (length ?p1)" using rm by (rule room_mono) simp
      obtain x ok where g: "get h level ?name = Inr (x, ok)"
        using get_total' [OF heap_wf_index_ok [OF w]] by blast
      obtain y where y: "y = (if ok then x else VNil)" by simp
      let ?c = "createLevelFromNextPath h ?p1"
      let ?B = "if ac then
                  (case set_dj (snd ?c) level ?name (VDoc (fst ?c)) of
                     Inl f \<Rightarrow> Inl f
                   | Inr (_, h2) \<Rightarrow> doOp_loop h2 (fst ?c) ?p1 ac sv v)
                else Inr ((VNil, False), h)"
      have unf: "doOp_loop h level path ac sv v
          = (case y of VDoc q \<Rightarrow> doOp_loop h q ?p1 ac sv v
             | VNil \<Rightarrow> ?B | VBool _ \<Rightarrow> ?B | VNumber _ \<Rightarrow> ?B | VFloat _ \<Rightarrow> ?B | VInt _ \<Rightarrow> ?B
             | VInt64 _ \<Rightarrow> ?B | VString _ \<Rightarrow> ?B | VTime _ \<Rightarrow> ?B | VDeleted \<Rightarrow> ?B
             | VStruct _ _ _ _ \<Rightarrow> ?B | VOther _ \<Rightarrow> ?B)"
        unfolding y using 2 False g
        by (subst doOp_loop.simps) (cases x; cases ok; simp add: Let_def split_beta)
      show ?thesis
      proof (cases "\<exists>q. y = VDoc q")
        case True
        then obtain q where q: "y = VDoc q" by blast
        have "doOp_loop h q ?p1 ac sv v = Inr (r, h')"
          using run unf q by simp
        from less.hyps [OF l w r1 _ this] lp show ?thesis by simp
      next
        case nd: False
        have unf': "doOp_loop h level path ac sv v = ?B"
          unfolding unf using nd by (cases y) simp_all
        show ?thesis
        proof (cases ac)
          case ac: False
          have "Inr ((VNil, False), h) = Inr (r, h')"
            using run unf' ac by simp
          with w show ?thesis by simp
        next
          case ac: True
          have c: "heap_wf (snd ?c)" "room (snd ?c) (Suc k)" "fst ?c = Ptr (fresh h)"
            using createLevel_preserves [OF w rm lp, of ?p1] lk by simp_all
          have e: "(case set_dj (snd ?c) level ?name (VDoc (fst ?c)) of
                     Inl f \<Rightarrow> Inl f
                   | Inr (_, h2) \<Rightarrow> doOp_loop h2 (fst ?c) ?p1 ac sv v) = Inr (r, h')"
            using run unf' ac by simp
          show ?thesis
          proof (cases level)
            case NilPtr
            with e show ?thesis by (simp add: set_dj_def)
          next
            case (Ptr a)
            obtain e1 h2 where s: "set_dj (snd ?c) (Ptr a) ?name (VDoc (fst ?c)) = Inr (e1, h2)"
              and w2: "heap_wf h2" and r2: "room h2 k"
              using set_dj_preserves [OF c(1) c(2), of "VDoc (fst ?c)" a ?name] by auto
            have r3: "room h2 (length ?p1)" using r2 l1 by (rule room_mono)
            have "doOp_loop h2 (fst ?c) ?p1 ac sv v = Inr (r, h')"
              using e s Ptr by simp
            from less.hyps [OF l w2 r3 _ this] lp show ?thesis by simp
          qed
        qed
      qed
    next
      case 3
      have e: "(case (if sv then set_dj h level path v else Inr (None, h)) of
              Inl f \<Rightarrow> Inl f
            | Inr (_, h1) \<Rightarrow>
                (case get h1 level path of
                   Inl f \<Rightarrow> Inl f
                 | Inr (x, ok) \<Rightarrow> if ok then Inr ((x, True), h1) else Inr ((VNil, False), h1))) = Inr (r, h')"
        using run 3 False by (subst (asm) doOp_loop.simps) (simp add: Let_def)
      show ?thesis
      proof (cases "sv")
        case False
        with e w show ?thesis by (auto split: sum.splits prod.splits if_splits)
      next
        case sv: True
        show ?thesis
        proof (cases level)
          case NilPtr
          with e sv show ?thesis by (simp add: set_dj_def)
        next
          case (Ptr a)
          have rk: "room h (Suc k)" using rm lk by simp
          obtain e1 h2 where s: "set_dj h (Ptr a) path v = Inr (e1, h2)" and w2: "heap_wf h2"
            using set_dj_preserves [OF w rk v, of a path] by auto
          with e sv Ptr show ?thesis by (auto split: sum.splits prod.splits if_splits)
        qed
      qed
    qed
  qed
qed

lemma Set_preserves:
  assumes "heap_wf h" "room h (length path)" "length path \<le> 2 ^ 32" "Set h self path v = Inr h'"
  shows "heap_wf h'"
proof (cases self)
  case NilPtr
  with assms show ?thesis by (simp add: Set_def doOp_def)
next
  case (Ptr a)
  show ?thesis
  proof (cases "iterCounter (cells h a) < 0")
    case True
    with assms Ptr show ?thesis by (simp add: Set_def doOp_def)
  next
    case False
    then obtain r where "doOp_loop h self path True True (convertToDJ v) = Inr (r, h')"
      using assms(4) Ptr by (auto simp: Set_def doOp_def split: sum.splits)
    from doOp_loop_preserves [OF convertToDJ_live assms(1) assms(2) assms(3) this] show ?thesis .
  qed
qed

lemma Nested_read:
  assumes "heap_wf h"
  shows "\<exists>p. Nested h self path = Inr (p, h)"
proof (cases self)
  case NilPtr
  then show ?thesis by (simp add: Nested_def)
next
  case (Ptr a)
  obtain x ok where "doOp_loop h self path False False VNil = Inr ((x, ok), h)"
    using doOp_loop_read [OF heap_wf_index_ok [OF assms]] by blast
  with Ptr show ?thesis by (cases x) (simp_all add: Nested_def doOp_def)
qed

lemma Delete_preserves:
  "heap_wf h \<Longrightarrow> \<exists>e h'. Delete h self path = Inr (e, h') \<and> heap_wf h'"
proof (induction "length path" arbitrary: path self rule: less_induct)
  case less
  note w = less.prems
  show ?case
  proof (cases self)
    case NilPtr
    with w show ?thesis by (simp add: Delete.simps)
  next
    case (Ptr a)
    let ?i = "IndexByte path CHR ''/''"
    have b: "- 1 \<le> ?i \<and> ?i < int (length path)" by (rule IndexByte_bounds)
    show ?thesis
    proof (cases "iterCounter (cells h a) < 0")
      case True
      with w Ptr show ?thesis by (simp add: Delete_frozen)
    next
      case nf: False
      show ?thesis
      proof (cases "0 \<le> ?i")
        case True
        have l: "length (drop (nat ?i + 1) path) < length path" using True b by simp
        obtain p where n: "Nested h (Ptr a) (take (nat ?i) path) = Inr (p, h)"
          using Nested_read [OF w] by blast
        obtain e h' where d: "Delete h p (drop (nat ?i + 1) path) = Inr (e, h')" and w': "heap_wf h'"
          using less.hyps [OF l w] by blast
        have "Delete h self path = Inr (None, h')"
          using Ptr nf True n d by (subst Delete.simps) (simp add: Let_def)
        with w' show ?thesis by simp
      next
        case ns: False
        then have i: "?i = - 1" using b by simp
        have x: "CHR ''/'' \<notin> set path" using IndexByte_present [of "CHR ''/''" path] ns by blast
        show ?thesis
        proof (cases "keys (cells h a)")
          case None
          let ?d = "(cells h a)\<lparr>vals := take (nat (key2Index path)) (vals (cells h a))
                       @ drop (nat (key2Index path) + 1) (vals (cells h a))\<rparr>"
          have "keys ?d = None" using None by simp
          then have "wf_doc ?d" by (rule wf_doc_array)
          then have ws: "heap_wf (store h a ?d)" by (rule heap_wf_store [OF w])
          have "Delete h self path = Inr (None, h) \<or> Delete h self path = Inr (None, store h a ?d)"
            using Ptr nf ns None
            by (subst (1 2) Delete.simps) (simp add: Let_def)
          with w ws show ?thesis by auto
        next
          case (Some m)
          have wa: "wf_doc (cells h a)" using w by (simp add: heap_wf_def)
          have f: "0 \<le> iterCounter (cells h a)" using nf by simp
          obtain h' where d: "Delete h (Ptr a) path = Inr (None, h')" and wd: "wf_doc (cells h' a)"
            and o: "\<forall>b. b \<noteq> a \<longrightarrow> cells h' b = cells h b"
            using Delete_map_single [OF wa Some f x] by blast
          have "heap_wf h'" unfolding heap_wf_def
          proof
            fix b show "wf_doc (cells h' b)"
              using wd o w by (cases "b = a") (simp_all add: heap_wf_def)
          qed
          with d Ptr show ?thesis by simp
        qed
      qed
    qed
  qed
qed

lemma Map_dj_preserves:
  assumes w: "heap_wf h" and r: "room h (Suc 0)"
  shows "\<exists>q h'. Map_dj h self name = Inr (q, h') \<and> heap_wf h'"
proof (cases self)
  case NilPtr
  with w show ?thesis by (simp add: Map_dj_def)
next
  case (Ptr a)
  obtain x ok where g: "get h (Ptr a) name = Inr (x, ok)"
    using get_total' [OF heap_wf_index_ok [OF w]] by blast
  have w1: "heap_wf (snd (NewMap h))" by (rule NewMap_preserves [OF w])
  have r1: "room (snd (NewMap h)) (Suc 0)" using r by (simp add: NewMap_def alloc_def room_def)
  obtain e h' where s: "set_dj (snd (NewMap h)) (Ptr a) name (VDoc (fst (NewMap h))) = Inr (e, h')"
    and w': "heap_wf h'"
    using set_dj_preserves [OF w1 r1, of "VDoc (fst (NewMap h))" a name] by auto
  show ?thesis
    using Ptr g s w w' by (cases "if ok then x else VNil") (auto simp: Map_dj_def)
qed

lemma Freeze_shape:
  "(\<forall>h self h'. Freeze n h self = Inr h' \<longrightarrow>
      (\<forall>b. keys (cells h' b) = keys (cells h b) \<and> ordKeys (cells h' b) = ordKeys (cells h b)
         \<and> vals (cells h' b) = vals (cells h b)))
   \<and> (\<forall>h a isArr i h'. Freeze_loop n h a isArr i = Inr h' \<longrightarrow>
      (\<forall>b. keys (cells h' b) = keys (cells h b) \<and> ordKeys (cells h' b) = ordKeys (cells h b)
         \<and> vals (cells h' b) = vals (cells h b)))"
proof (induction n)
  case 0
  show ?case by simp
next
  case (Suc n)
  note F = Suc.IH [THEN conjunct1, rule_format] and L = Suc.IH [THEN conjunct2, rule_format]
  have 1: "\<forall>b. keys (cells h' b) = keys (cells h b) \<and> ordKeys (cells h' b) = ordKeys (cells h b)
         \<and> vals (cells h' b) = vals (cells h b)"
    if run: "Freeze (Suc n) h self = Inr h'" for h self h'
  proof (cases self)
    case NilPtr
    with run show ?thesis by simp
  next
    case (Ptr a)
    show ?thesis
    proof (cases "iterCounter (cells h a) < 0")
      case True
      with run Ptr show ?thesis by simp
    next
      case False
      then obtain h1 where l: "Freeze_loop n h a (IsArray h self) 0 = Inr h1"
        and e: "h' = store h1 a ((cells h1 a)\<lparr>iterCounter := - 1000\<rparr>)"
        using run Ptr by (auto split: sum.splits)
      from L [OF l] e show ?thesis by (simp add: cells_store)
    qed
  qed
  have 2: "\<forall>b. keys (cells h' b) = keys (cells h b) \<and> ordKeys (cells h' b) = ordKeys (cells h b)
         \<and> vals (cells h' b) = vals (cells h b)"
    if run: "Freeze_loop (Suc n) h a isArr i = Inr h'" for h a isArr i h'
  proof (cases "i < length (vals (cells h a))")
    case False
    with run show ?thesis by simp
  next
    case True
    show ?thesis
    proof (cases "\<exists>d. vals (cells h a) ! i = VDoc d")
      case True
      then obtain d where d: "vals (cells h a) ! i = VDoc d" by blast
      then obtain h1 where f: "Freeze n h d = Inr h1" and l: "Freeze_loop n h1 a isArr (i + 1) = Inr h'"
        using run \<open>i < length (vals (cells h a))\<close> by (auto split: sum.splits)
      from F [OF f] L [OF l] show ?thesis by simp
    next
      case False
      have "Freeze_loop n h a isArr (i + 1) = Inr h'"
        using run False \<open>i < length (vals (cells h a))\<close>
        by (cases "vals (cells h a) ! i") (simp_all split: if_splits)
      from L [OF this] show ?thesis by blast
    qed
  qed
  from 1 2 show ?case by blast
qed

lemma Freeze_preserves:
  assumes w: "heap_wf h" and run: "Freeze n h self = Inr h'"
  shows "heap_wf h'"
proof -
  have s: "keys (cells h' b) = keys (cells h b) \<and> ordKeys (cells h' b) = ordKeys (cells h b)
         \<and> vals (cells h' b) = vals (cells h b)" for b
    using Freeze_shape [of n, THEN conjunct1, rule_format, OF run] by blast
  have "wf_doc (cells h' b)" for b
  proof -
    have "wf_doc (cells h b)" using w by (simp add: heap_wf_def)
    then show ?thesis unfolding wf_doc_def using s [of b]
      by (cases "keys (cells h b)") simp_all
  qed
  then show ?thesis by (simp add: heap_wf_def)
qed

section \<open>Compaction of a map\<close>

text \<open>
  C4. \<^verbatim>\<open>packing\<close> on a nil receiver or an array returns without a change. For a map
  that satisfies the invariant, the key index has as many entries as there are live
  slots, and \<^verbatim>\<open>packing\<close> returns. It rebuilds exactly when \<^verbatim>\<open>iterCounter\<close> is 0,
  there are at least 128 slots and three times the number of keys is less than the
  number of slots. The rebuilt \<^verbatim>\<open>values\<close> are the values that are not tombstones,
  in their old order; the rebuilt \<^verbatim>\<open>ordKeys\<close> are the keys of those slots, in the
  same order; the new key index has the same keys and maps the key of the new slot
  \<open>p\<close> to \<open>p\<close>; the counter, the other containers and the invariant are kept. In
  every other case the store is left as it is.
\<close>

theorem C4_packing:
  "packing h NilPtr = Inr h
   \<and> (keys (cells h a) = None \<longrightarrow> packing h (Ptr a) = Inr h)
   \<and> (wf_doc (cells h a) \<and> keys (cells h a) = Some m \<longrightarrow>
        card (dom m) = length (live_keys (cells h a))
        \<and> (\<exists>h'. packing h (Ptr a) = Inr h'
              \<and> (if iterCounter (cells h a) = 0 \<and> 128 \<le> length (vals (cells h a))
                     \<and> card (dom m) * 3 < length (vals (cells h a))
                  then vals (cells h' a) = filter (\<lambda>x. x \<noteq> VDeleted) (vals (cells h a))
                     \<and> ordKeys (cells h' a) = live_keys (cells h a)
                     \<and> (\<exists>m'. keys (cells h' a) = Some m' \<and> dom m' = dom m
                            \<and> (\<forall>p < length (live_keys (cells h a)).
                                  m' (live_keys (cells h a) ! p) = Some p))
                     \<and> iterCounter (cells h' a) = iterCounter (cells h a)
                     \<and> wf_doc (cells h' a)
                     \<and> (\<forall>b. b \<noteq> a \<longrightarrow> cells h' b = cells h b)
                     \<and> fresh h' = fresh h
                  else h' = h)))"
proof (intro conjI impI)
  show "packing h NilPtr = Inr h" by (simp add: packing_def)
next
  assume "keys (cells h a) = None"
  then show "packing h (Ptr a) = Inr h" by (simp add: packing_def Let_def)
next
  assume a: "wf_doc (cells h a) \<and> keys (cells h a) = Some m"
  then show "card (dom m) = length (live_keys (cells h a))" using wf_card(1) by blast
next
  assume a: "wf_doc (cells h a) \<and> keys (cells h a) = Some m"
  then have w: "wf_doc (cells h a)" and k: "keys (cells h a) = Some m" by simp_all
  let ?d = "cells h a"
  let ?c = "iterCounter ?d = 0 \<and> 128 \<le> length (vals ?d) \<and> card (dom m) * 3 < length (vals ?d)"
  have dist: "distinct (live_keys ?d)" by (rule wf_live_keys_distinct [OF w k])
  have dom: "dom m = set (live_keys ?d)" by (rule wf_dom [OF w k])
  show "\<exists>h'. packing h (Ptr a) = Inr h'
              \<and> (if ?c
                  then vals (cells h' a) = filter (\<lambda>x. x \<noteq> VDeleted) (vals ?d)
                     \<and> ordKeys (cells h' a) = live_keys ?d
                     \<and> (\<exists>m'. keys (cells h' a) = Some m' \<and> dom m' = dom m
                            \<and> (\<forall>p < length (live_keys ?d). m' (live_keys ?d ! p) = Some p))
                     \<and> iterCounter (cells h' a) = iterCounter ?d
                     \<and> wf_doc (cells h' a)
                     \<and> (\<forall>b. b \<noteq> a \<longrightarrow> cells h' b = cells h b)
                     \<and> fresh h' = fresh h
                  else h' = h)"
  proof (cases ?c)
    case False
    have "packing h (Ptr a) = Inr h" by (rule packing_skip [OF k False])
    then have "\<exists>h'. packing h (Ptr a) = Inr h' \<and> h' = h" by simp
    then show ?thesis by (simp only: if_not_P [OF False])
  next
    case True
    let ?h' = "store h a (packed ?d m)"
    have p: "packing h (Ptr a) = Inr ?h'"
      using True by (intro packing_run [OF w k]) simp_all
    have c: "cells ?h' a = packed ?d m" by (simp add: cells_store)
    have 1: "vals (packed ?d m) = filter (\<lambda>x. x \<noteq> VDeleted) (vals ?d)"
      by (simp add: packed_def live_vals_def)
    have 2: "ordKeys (packed ?d m) = live_keys ?d" by (simp add: packed_def)
    have 3: "\<exists>m'. keys (packed ?d m) = Some m' \<and> dom m' = dom m
                      \<and> (\<forall>p < length (live_keys ?d). m' (live_keys ?d ! p) = Some p)"
    proof (intro exI conjI)
      show "keys (packed ?d m) = Some (renumber m (live_keys ?d) 0)" by (simp add: packed_def)
      show "dom (renumber m (live_keys ?d) 0) = dom m" by (simp add: renumber_dom dom)
      show "\<forall>p < length (live_keys ?d). renumber m (live_keys ?d) 0 (live_keys ?d ! p) = Some p"
        using renumber_nth [OF dist, of _ m 0] by simp
    qed
    have 4: "iterCounter (packed ?d m) = iterCounter ?d" by (rule packed_fields(1))
    have 5: "wf_doc (packed ?d m)" by (rule wf_packed [OF w k])
    have 6: "\<forall>b. b \<noteq> a \<longrightarrow> cells ?h' b = cells h b"
      by (simp add: cells_store)
    have 7: "fresh ?h' = fresh h" by (rule fresh_store)
    from 1 2 3 4 5 have "vals (cells ?h' a) = filter (\<lambda>x. x \<noteq> VDeleted) (vals ?d)
               \<and> ordKeys (cells ?h' a) = live_keys ?d
               \<and> (\<exists>m'. keys (cells ?h' a) = Some m' \<and> dom m' = dom m
                      \<and> (\<forall>p < length (live_keys ?d). m' (live_keys ?d ! p) = Some p))
               \<and> iterCounter (cells ?h' a) = iterCounter ?d
               \<and> wf_doc (cells ?h' a)"
      by (simp only: c)
    with p 6 7 have "\<exists>h'. packing h (Ptr a) = Inr h'
              \<and> (vals (cells h' a) = filter (\<lambda>x. x \<noteq> VDeleted) (vals ?d)
                     \<and> ordKeys (cells h' a) = live_keys ?d
                     \<and> (\<exists>m'. keys (cells h' a) = Some m' \<and> dom m' = dom m
                            \<and> (\<forall>p < length (live_keys ?d). m' (live_keys ?d ! p) = Some p))
                     \<and> iterCounter (cells h' a) = iterCounter ?d
                     \<and> wf_doc (cells h' a)
                     \<and> (\<forall>b. b \<noteq> a \<longrightarrow> cells h' b = cells h b)
                     \<and> fresh h' = fresh h)"
      by blast
    then show ?thesis by (simp only: if_P [OF True])
  qed
qed

text \<open>A map of 128 slots of which the last is live.\<close>

definition sparse_doc :: heap where
  "sparse_doc =
     store (snd (NewMap empty_heap)) 0
       \<lparr>keys = Some [''k'' \<mapsto> 127], ordKeys = replicate 127 ''x'' @ [''k''],
        iterCounter = 0, vals = replicate 127 VDeleted @ [VInt 1]\<rparr>"

lemma sparse_doc_cell:
  "cells sparse_doc 0 = \<lparr>keys = Some [''k'' \<mapsto> 127], ordKeys = replicate 127 ''x'' @ [''k''],
        iterCounter = 0, vals = replicate 127 VDeleted @ [VInt 1]\<rparr>"
  by (simp add: sparse_doc_def store_def)

lemma sparse_doc_wf: "wf_doc (cells sparse_doc 0)"
  by (auto simp: sparse_doc_cell wf_doc_def nth_append split: if_splits)

lemma sparse_doc_live: "live_keys (cells sparse_doc 0) = [''k'']"
  by (simp add: sparse_doc_cell live_keys_def live_slots_snoc live_slots_replicate_dead nth_append)

theorem C4_packing_witness:
  "wf_doc (cells sparse_doc 0) \<and> keys (cells sparse_doc 0) = Some [''k'' \<mapsto> 127]
   \<and> length (vals (cells sparse_doc 0)) = 128
   \<and> (\<exists>h'. packing sparse_doc (Ptr 0) = Inr h'
         \<and> vals (cells h' 0) = [VInt 1] \<and> ordKeys (cells h' 0) = [''k'']
         \<and> (\<exists>m'. keys (cells h' 0) = Some m' \<and> m' ''k'' = Some 0))"
proof -
  have k: "keys (cells sparse_doc 0) = Some [''k'' \<mapsto> 127]" by (simp add: sparse_doc_cell)
  have l: "length (vals (cells sparse_doc 0)) = 128" by (simp add: sparse_doc_cell)
  have c: "iterCounter (cells sparse_doc 0) = 0 \<and> 128 \<le> length (vals (cells sparse_doc 0))
      \<and> card (dom [''k'' \<mapsto> (127::nat)]) * 3 < length (vals (cells sparse_doc 0))"
    by (simp add: sparse_doc_cell)
  have f: "filter (\<lambda>x. x \<noteq> VDeleted) (vals (cells sparse_doc 0)) = [VInt 1]"
    by (simp add: sparse_doc_cell)
  from C4_packing [of sparse_doc 0 "[''k'' \<mapsto> 127]"] sparse_doc_wf k
  obtain h' where p: "packing sparse_doc (Ptr 0) = Inr h'"
    and r: "(if iterCounter (cells sparse_doc 0) = 0 \<and> 128 \<le> length (vals (cells sparse_doc 0))
                \<and> card (dom [''k'' \<mapsto> (127::nat)]) * 3 < length (vals (cells sparse_doc 0))
             then vals (cells h' 0) = filter (\<lambda>x. x \<noteq> VDeleted) (vals (cells sparse_doc 0))
                \<and> ordKeys (cells h' 0) = live_keys (cells sparse_doc 0)
                \<and> (\<exists>m'. keys (cells h' 0) = Some m' \<and> dom m' = dom [''k'' \<mapsto> (127::nat)]
                       \<and> (\<forall>p < length (live_keys (cells sparse_doc 0)).
                             m' (live_keys (cells sparse_doc 0) ! p) = Some p))
                \<and> iterCounter (cells h' 0) = iterCounter (cells sparse_doc 0)
                \<and> wf_doc (cells h' 0)
                \<and> (\<forall>b. b \<noteq> 0 \<longrightarrow> cells h' b = cells sparse_doc b)
                \<and> fresh h' = fresh sparse_doc
             else h' = sparse_doc)"
    by blast
  from r c have v: "vals (cells h' 0) = [VInt 1]" and o: "ordKeys (cells h' 0) = [''k'']"
    and m: "\<exists>m'. keys (cells h' 0) = Some m' \<and> (\<forall>p < length [''k'']. m' ([''k''] ! p) = Some p)"
    by (simp_all only: if_P f sparse_doc_live) blast+
  from m have "\<exists>m'. keys (cells h' 0) = Some m' \<and> m' ''k'' = Some 0" by auto
  with sparse_doc_wf k l p v o show ?thesis by blast
qed

section \<open>Iteration order of a map\<close>








end
